theory Spec2Isabelle
  imports Main "HOL-Library.Word" "HOL-Library.Sublist"
begin

section \<open>tongen: the vanity-address search, embedded from its Go source\<close>

text \<open>
  The program is one Go file, \<^verbatim>\<open>main.go\<close>. Its newest revision (the one with the
  \<^verbatim>\<open>-output\<close> flag and the daemon mode) is embedded here; the revision without
  \<^verbatim>\<open>Output\<close> is the instance \<open>Output = []\<close> of the same definitions, since
  \<^verbatim>\<open>processWallets\<close>, \<^verbatim>\<open>logProgress\<close> and the flag check are the same text in both.

  Go strings are byte strings: \<open>string\<close> (a list of 8-bit \<open>char\<close>) here.
\<close>

subsection \<open>The standard-library string functions the program calls\<close>

text \<open>
  \<^verbatim>\<open>strings.HasSuffix(s, suffix)\<close> is
  \<^verbatim>\<open>len(s) >= len(suffix) && s[len(s)-len(suffix):] == suffix\<close>.
\<close>

definition HasSuffix :: "string \<Rightarrow> string \<Rightarrow> bool" where
  "HasSuffix s suf \<longleftrightarrow> length s \<ge> length suf \<and> drop (length s - length suf) s = suf"

text \<open>
  \<^verbatim>\<open>strings.ToLower\<close> scans the bytes; when all of them are below
  \<^verbatim>\<open>utf8.RuneSelf\<close> (0x80) it adds \<^verbatim>\<open>'a' - 'A'\<close> to every byte in \<^verbatim>\<open>'A'..'Z'\<close>
  and keeps the others; otherwise it returns \<^verbatim>\<open>Map(unicode.ToLower, s)\<close>. The Unicode
  tables are not part of the program, so that second path is the parameter \<open>uni\<close>.
\<close>

definition isASCII :: "string \<Rightarrow> bool" where
  "isASCII s \<longleftrightarrow> list_all (\<lambda>c. (of_char c :: nat) < 128) s"

definition lowerByte :: "char \<Rightarrow> char" where
  "lowerByte c =
     (if (65::nat) \<le> of_char c \<and> (of_char c :: nat) \<le> 90
      then char_of ((of_char c :: nat) + 32) else c)"

definition ToLower :: "(string \<Rightarrow> string) \<Rightarrow> string \<Rightarrow> string" where
  "ToLower uni s = (if isASCII s then map lowerByte s else uni s)"

text \<open>
  \<^verbatim>\<open>strings.Join(elems, " ")\<close>: the elements with one space between neighbours.
\<close>

fun Join :: "string list \<Rightarrow> string" where
  "Join [] = []"
| "Join [x] = x"
| "Join (x # y # ys) = x @ '' '' @ Join (y # ys)"

subsection \<open>The configuration and the suffix comparison\<close>

text \<open>
  \<^verbatim>\<open>type Config struct\<close>. \<^verbatim>\<open>Version\<close> and \<^verbatim>\<open>Threads\<close> are Go \<^verbatim>\<open>int\<close>s; the
  program only compares them with constants and counts up to \<^verbatim>\<open>Threads\<close>, so no
  arithmetic on them can overflow and they are \<open>int\<close> here.
\<close>

record Config =
  Version :: int
  Suffix :: string
  CaseSensitive :: bool
  Bounce :: bool
  Threads :: int
  Testnet :: bool
  Output :: string
  Daemon :: bool

text \<open>
  The comparison inside \<^verbatim>\<open>processWallets\<close>:
  \<^verbatim>\<open>
  if config.CaseSensitive {
      if strings.HasSuffix(addressStr, config.Suffix) { ... found ... }
  } else {
      if strings.HasSuffix(strings.ToLower(addressStr), strings.ToLower(config.Suffix)) { ... found ... }
  }
  \<close>
  \<open>matches uni a s cs\<close> is true exactly when the \<^verbatim>\<open>found\<close> branch is taken for the
  address \<open>a\<close>, the suffix \<open>s\<close> and the flag \<open>cs\<close>.
\<close>

definition matches :: "(string \<Rightarrow> string) \<Rightarrow> string \<Rightarrow> string \<Rightarrow> bool \<Rightarrow> bool" where
  "matches uni a s cs =
     (if cs then HasSuffix a s else HasSuffix (ToLower uni a) (ToLower uni s))"

subsection \<open>The wallet library and address derivation\<close>

text \<open>
  \<^verbatim>\<open>wallet.FromSeed\<close> and the address rendering belong to the library
  \<^verbatim>\<open>tonutils-go\<close>, not to the program: they are parameters. \<open>FromSeed seed v\<close> is
  \<^verbatim>\<open>wallet.FromSeed(nil, seed, v)\<close> (\<open>Inl err\<close> when it returns an error), and
  \<open>AddressString w t b\<close> is \<^verbatim>\<open>w.WalletAddress().Testnet(t).Bounce(b).String()\<close>.
  \<open>UnicodeLower\<close> is the non-ASCII path of \<^verbatim>\<open>strings.ToLower\<close>.
\<close>

datatype version_config = V4R2 | ConfigV5R1Final (NetworkGlobalID: int) (Workchain: int)

record 'w lib =
  FromSeed :: "string list \<Rightarrow> version_config \<Rightarrow> string + 'w"
  AddressString :: "'w \<Rightarrow> bool \<Rightarrow> bool \<Rightarrow> string"
  UnicodeLower :: "string \<Rightarrow> string"

definition getNetworkID :: "bool \<Rightarrow> int" where
  "getNetworkID isTestnet = (if isTestnet then - 3 else - 239)"

definition generateV5Wallet :: "'w lib \<Rightarrow> string list \<Rightarrow> Config \<Rightarrow> string + string" where
  "generateV5Wallet L seed config =
     (case FromSeed L seed (ConfigV5R1Final (getNetworkID (Testnet config)) 0) of
        Inl err \<Rightarrow> Inl err
      | Inr w \<Rightarrow> Inr (AddressString L w (Testnet config) (Bounce config)))"

definition generateV4Wallet :: "'w lib \<Rightarrow> string list \<Rightarrow> Config \<Rightarrow> string + string" where
  "generateV4Wallet L seed config =
     (case FromSeed L seed V4R2 of
        Inl err \<Rightarrow> Inl err
      | Inr w \<Rightarrow> Inr (AddressString L w (Testnet config) (Bounce config)))"

subsection \<open>The shared state of one search run\<close>

text \<open>
  The goroutines of a run share the channel \<^verbatim>\<open>stopChan\<close> (only ever closed, so a
  flag: \<open>True\<close> is closed), the \<^verbatim>\<open>sync.Once\<close>, and the \<^verbatim>\<open>uint64\<close> counter, and they
  write to standard output, to the log and to the output file. Every access to the three
  shared objects is a synchronising operation (channel receive and close, \<^verbatim>\<open>once.Do\<close>,
  \<^verbatim>\<open>atomic.AddUint64\<close>, \<^verbatim>\<open>atomic.LoadUint64\<close>), so a run is an interleaving of the
  goroutines' steps. One step of a worker is the local computation up to and including
  its next access to something shared; the control point of each worker says where in
  the loop body of \<^verbatim>\<open>processWallets\<close> it stands.
\<close>

datatype pc =
    AtSelect                       \<comment> \<open>at \<^verbatim>\<open>select { case <-stopChan: ... default: ... }\<close>\<close>
  | AtDerive                       \<comment> \<open>in the \<^verbatim>\<open>default\<close> branch, before \<^verbatim>\<open>wallet.NewSeed()\<close>\<close>
  | AtPrint "string list" string   \<comment> \<open>the suffix matched; before \<^verbatim>\<open>printFoundWallet\<close>\<close>
  | AtOnce                         \<comment> \<open>before \<^verbatim>\<open>once.Do(func() { close(stopChan) })\<close>\<close>
  | AtAdd                          \<comment> \<open>before \<^verbatim>\<open>atomic.AddUint64(counter, 1)\<close>\<close>
  | Exited                         \<comment> \<open>\<^verbatim>\<open>processWallets\<close> has returned\<close>

datatype rpc = RSelect | RExited

text \<open>
  The lines written with \<^verbatim>\<open>log.Printf\<close>, by the call that writes them:
  \<^verbatim>\<open>"Using %d threads\n"\<close>, \<^verbatim>\<open>"Failed to create wallet: %v"\<close>,
  \<^verbatim>\<open>"Processed %d addresses in the last second\n"\<close> and \<^verbatim>\<open>"Failed to write to file: %v"\<close>,
  each with its argument.
\<close>

datatype logline =
    LUsing int
  | LFailed string
  | LProcessed "64 word"
  | LWriteFailed string

text \<open>
  What each worker has done, in the order of the run. The program does not keep this
  list; it is recorded by the steps below so that properties of a run can speak about
  the iterations that took place.
\<close>

datatype action =
    ObservedStop     \<comment> \<open>received from the closed \<^verbatim>\<open>stopChan\<close> and returned\<close>
  | DeriveFailed     \<comment> \<open>an iteration whose \<^verbatim>\<open>generateV*Wallet\<close> returned an error\<close>
  | DeriveMatched    \<comment> \<open>an iteration whose address has the suffix\<close>
  | DeriveMissed     \<comment> \<open>an iteration whose address does not have the suffix\<close>
  | Reported         \<comment> \<open>\<^verbatim>\<open>printFoundWallet\<close> ran\<close>
  | ClosedChan       \<comment> \<open>\<^verbatim>\<open>once.Do\<close> ran its function: \<^verbatim>\<open>close(stopChan)\<close>\<close>
  | OnceSkipped      \<comment> \<open>\<^verbatim>\<open>once.Do\<close> returned without running its function\<close>
  | Incremented      \<comment> \<open>\<^verbatim>\<open>atomic.AddUint64(counter, 1)\<close> ran\<close>

record state =
  stopChan :: bool
  onceDone :: bool
  counter :: "64 word"
  workers :: "pc list"
  reporter :: rpc
  lastCount :: "64 word"
  stdout :: "string list"
  logs :: "logline list"
  files :: "string \<rightharpoonup> string"
  panicked :: bool
  history :: "(nat \<times> action) list"

text \<open>
  What the environment decides in a step: the seed \<^verbatim>\<open>wallet.NewSeed()\<close> returns, the
  text \<^verbatim>\<open>time.Now().Format("2006-01-02 15:04:05")\<close> returns, and how the file system
  answers \<^verbatim>\<open>writeToFile\<close>: \<^verbatim>\<open>os.OpenFile\<close> fails, or \<^verbatim>\<open>WriteString\<close> fails after
  writing some bytes, or both succeed.
\<close>

datatype io_outcome = IO_ok | Open_fails string | Write_fails nat string

record env =
  newSeed :: "string list"
  timeNow :: string
  fileIO :: io_outcome

subsection \<open>Reporting a found wallet\<close>

text \<open>
  \<^verbatim>\<open>
  func writeToFile(filename, content string) error {
      file, err := os.OpenFile(filename, os.O_APPEND|os.O_CREATE|os.O_WRONLY, 0644)
      if err != nil { return err }
      defer file.Close()
      _, err = file.WriteString(content)
      return err
  }
  \<close>
  The file system is a map from names to contents; a name outside its domain is a file
  that does not exist.
\<close>

definition contents :: "(string \<rightharpoonup> string) \<Rightarrow> string \<Rightarrow> string" where
  "contents fs filename = (case fs filename of None \<Rightarrow> [] | Some c \<Rightarrow> c)"

definition writeToFile ::
  "io_outcome \<Rightarrow> (string \<rightharpoonup> string) \<Rightarrow> string \<Rightarrow> string \<Rightarrow> string option \<times> (string \<rightharpoonup> string)" where
  "writeToFile io fs filename content =
     (case io of
        Open_fails err \<Rightarrow> (Some err, fs)
      | Write_fails n err \<Rightarrow> (Some err, fs(filename \<mapsto> contents fs filename @ take n content))
      | IO_ok \<Rightarrow> (None, fs(filename \<mapsto> contents fs filename @ content)))"

text \<open>
  \<^verbatim>\<open>fmt.Sprintf("=== FOUND %s ===\nSeed: %s\nAddress: %s\n\n", timestamp, strings.Join(seed, " "), address)\<close>
\<close>

definition found_record :: "string \<Rightarrow> string list \<Rightarrow> string \<Rightarrow> string" where
  "found_record timestamp seed address =
     ''=== FOUND '' @ timestamp @ '' ==='' @ [CHR 0x0A] @
     ''Seed: '' @ Join seed @ [CHR 0x0A] @
     ''Address: '' @ address @ [CHR 0x0A, CHR 0x0A]"

text \<open>
  \<^verbatim>\<open>
  func printFoundWallet(seed []string, address string, output string) {
      fmt.Println("=== FOUND ===")
      fmt.Println("Seed phrase:", strings.Join(seed, " "))
      fmt.Println("Wallet address:", address)
      if output != "" {
          timestamp := time.Now().Format("2006-01-02 15:04:05")
          content := fmt.Sprintf(...)
          err := writeToFile(output, content)
          if err != nil {
              log.Printf("Failed to write to file: %v", err)
          } else {
              fmt.Printf("Results saved to: %s\n", output)
          }
      }
  }
  \<close>
  Standard output is the list of its lines.
\<close>

definition printFoundWallet :: "env \<Rightarrow> string list \<Rightarrow> string \<Rightarrow> string \<Rightarrow> state \<Rightarrow> state" where
  "printFoundWallet e seed address output s =
     (let s1 = s\<lparr>stdout := stdout s @
                 [''=== FOUND ==='', ''Seed phrase: '' @ Join seed, ''Wallet address: '' @ address]\<rparr>
      in if output \<noteq> [] then
           (case writeToFile (fileIO e) (files s1) output (found_record (timeNow e) seed address) of
              (Some err, fs) \<Rightarrow> s1\<lparr>files := fs, logs := logs s1 @ [LWriteFailed err]\<rparr>
            | (None, fs) \<Rightarrow> s1\<lparr>files := fs, stdout := stdout s1 @ [''Results saved to: '' @ output]\<rparr>)
         else s1)"

subsection \<open>The worker: \<^verbatim>\<open>processWallets\<close>\<close>

text \<open>
  \<^verbatim>\<open>close(stopChan)\<close> panics when the channel is closed already; \<^verbatim>\<open>once.Do(f)\<close> runs
  \<open>f\<close> on its first call only.
\<close>

definition closeChan :: "state \<Rightarrow> state" where
  "closeChan s = (if stopChan s then s\<lparr>panicked := True\<rparr> else s\<lparr>stopChan := True\<rparr>)"

definition onceDo :: "nat \<Rightarrow> state \<Rightarrow> state" where
  "onceDo i s =
     (if onceDone s then s\<lparr>history := history s @ [(i, OnceSkipped)]\<rparr>
      else closeChan (s\<lparr>onceDone := True, history := history s @ [(i, ClosedChan)]\<rparr>))"

text \<open>
  \<^verbatim>\<open>
  if config.Version == 5 {
      addressStr, err = generateV5Wallet(seed, config)
  } else {
      addressStr, err = generateV4Wallet(seed, config)
  }
  \<close>
\<close>

definition derive :: "'w lib \<Rightarrow> Config \<Rightarrow> string list \<Rightarrow> string + string" where
  "derive L config seed =
     (if Version config = 5 then generateV5Wallet L seed config
      else generateV4Wallet L seed config)"

definition goto :: "nat \<Rightarrow> pc \<Rightarrow> action \<Rightarrow> state \<Rightarrow> state" where
  "goto i p a s = s\<lparr>workers := (workers s)[i := p], history := history s @ [(i, a)]\<rparr>"

text \<open>
  One step of worker \<open>i\<close>, by its control point:
  \<^item> at the \<^verbatim>\<open>select\<close>: return when \<^verbatim>\<open>stopChan\<close> is closed, else enter \<^verbatim>\<open>default\<close>;
  \<^item> in \<^verbatim>\<open>default\<close>: take a seed and derive the address; on an error
    \<^verbatim>\<open>log.Printf("Failed to create wallet: %v", err); continue\<close>; else compare the suffix;
  \<^item> on a match: \<^verbatim>\<open>printFoundWallet\<close>, then \<^verbatim>\<open>once.Do\<close>, then \<^verbatim>\<open>return\<close>;
  \<^item> otherwise: \<^verbatim>\<open>atomic.AddUint64(counter, 1)\<close> and back to the \<^verbatim>\<open>select\<close>.
\<close>

definition worker_step :: "'w lib \<Rightarrow> Config \<Rightarrow> nat \<Rightarrow> env \<Rightarrow> state \<Rightarrow> state" where
  "worker_step L config i e s =
     (case workers s ! i of
        AtSelect \<Rightarrow>
          if stopChan s then goto i Exited ObservedStop s
          else s\<lparr>workers := (workers s)[i := AtDerive]\<rparr>
      | AtDerive \<Rightarrow>
          (case derive L config (newSeed e) of
             Inl err \<Rightarrow> goto i AtSelect DeriveFailed (s\<lparr>logs := logs s @ [LFailed err]\<rparr>)
           | Inr addressStr \<Rightarrow>
               if matches (UnicodeLower L) addressStr (Suffix config) (CaseSensitive config)
               then goto i (AtPrint (newSeed e) addressStr) DeriveMatched s
               else goto i AtAdd DeriveMissed s)
      | AtPrint seed addressStr \<Rightarrow>
          goto i AtOnce Reported (printFoundWallet e seed addressStr (Output config) s)
      | AtOnce \<Rightarrow>
          (onceDo i s)\<lparr>workers := (workers s)[i := Exited]\<rparr>
      | AtAdd \<Rightarrow>
          goto i AtSelect Incremented (s\<lparr>counter := counter s + 1\<rparr>)
      | Exited \<Rightarrow> s)"

subsection \<open>The reporter: \<^verbatim>\<open>logProgress\<close>\<close>

text \<open>
  \<^verbatim>\<open>
  func logProgress(counter *uint64, stopChan chan struct{}) {
      var lastCount uint64
      for {
          select {
          case <-stopChan:
              return
          case <-time.After(1 * time.Second):
              currentCount := atomic.LoadUint64(counter)
              processedLastSecond := currentCount - lastCount
              lastCount = currentCount
              log.Printf("Processed %d addresses in the last second\n", processedLastSecond)
          }
      }
  }
  \<close>
  The reporter takes the timer case when the environment lets the second elapse (event
  \<open>Tick\<close>), and the \<^verbatim>\<open>stopChan\<close> case (event \<open>ReporterStop\<close>) only when the channel is
  closed. When both are ready Go chooses either, so \<open>Tick\<close> stays possible then.
\<close>

definition reporter_tick :: "state \<Rightarrow> state" where
  "reporter_tick s =
     (case reporter s of
        RExited \<Rightarrow> s
      | RSelect \<Rightarrow>
          (let currentCount = counter s;
               processedLastSecond = currentCount - lastCount s
           in s\<lparr>lastCount := currentCount, logs := logs s @ [LProcessed processedLastSecond]\<rparr>))"

definition reporter_stop :: "state \<Rightarrow> state" where
  "reporter_stop s =
     (case reporter s of
        RExited \<Rightarrow> s
      | RSelect \<Rightarrow> if stopChan s then s\<lparr>reporter := RExited\<rparr> else s)"

subsection \<open>Runs\<close>

datatype event = Sched nat env | Tick | ReporterStop

text \<open>
  A panic in any goroutine ends the process, so nothing steps afterwards.
\<close>

definition step :: "'w lib \<Rightarrow> Config \<Rightarrow> event \<Rightarrow> state \<Rightarrow> state" where
  "step L config ev s =
     (if panicked s then s
      else case ev of
             Sched i e \<Rightarrow> if i < length (workers s) then worker_step L config i e s else s
           | Tick \<Rightarrow> reporter_tick s
           | ReporterStop \<Rightarrow> reporter_stop s)"

fun run :: "'w lib \<Rightarrow> Config \<Rightarrow> event list \<Rightarrow> state \<Rightarrow> state" where
  "run L config [] s = s"
| "run L config (ev # evs) s = run L config evs (step L config ev s)"

subsection \<open>The coordinator: \<^verbatim>\<open>runWalletGenerator\<close>, \<^verbatim>\<open>parseFlags\<close>, \<^verbatim>\<open>main\<close>\<close>

text \<open>
  \<^verbatim>\<open>
  if config.Threads == 0 {
      config.Threads = runtime.NumCPU()
  }
  log.Printf("Using %d threads\n", config.Threads)
  stopChan := make(chan struct{})
  var once sync.Once
  var counter uint64
  var wg sync.WaitGroup
  go logProgress(&counter, stopChan)
  for i := 0; i < config.Threads; i++ {
      wg.Add(1)
      go func() { defer wg.Done(); processWallets(config, &counter, stopChan, &once) }()
  }
  wg.Wait()
  \<close>
  \<open>resolveThreads\<close> is the first statement; \<open>runWalletGenerator\<close> gives the state in
  which all goroutines have been started and none has stepped. The loop starts one worker
  for each \<open>i\<close> with \<open>0 \<le> i < Threads\<close>: \<open>nat (Threads config)\<close> of them, none when
  \<open>Threads\<close> is negative. \<^verbatim>\<open>wg.Wait()\<close> returns once every worker has returned.
\<close>

definition resolveThreads :: "int \<Rightarrow> Config \<Rightarrow> Config" where
  "resolveThreads numCPU config =
     (if Threads config = 0 then config\<lparr>Threads := numCPU\<rparr> else config)"

definition runWalletGenerator :: "int \<Rightarrow> (string \<rightharpoonup> string) \<Rightarrow> Config \<Rightarrow> state" where
  "runWalletGenerator numCPU fs config =
     (let config' = resolveThreads numCPU config
      in \<lparr>stopChan = False, onceDone = False, counter = 0,
          workers = replicate (nat (Threads config')) AtSelect,
          reporter = RSelect, lastCount = 0,
          stdout = [], logs = [LUsing (Threads config')],
          files = fs, panicked = False, history = []\<rparr>)"

definition finished :: "state \<Rightarrow> bool" where
  "finished s \<longleftrightarrow> list_all (\<lambda>p. p = Exited) (workers s)"

text \<open>
  \<^verbatim>\<open>parseFlags\<close>, after \<^verbatim>\<open>fs.Parse\<close> has read the arguments into the flag variables:
  \<^verbatim>\<open>
  if *suffix == "" || (*version != 4 && *version != 5) {
      fs.PrintDefaults()
      os.Exit(1)
  }
  return Config{Version: *version, Suffix: *suffix, CaseSensitive: *caseSensitive,
      Bounce: *bounce, Threads: *threads, Testnet: *testnet, Output: *output, Daemon: false}
  \<close>
  The record \<open>flags\<close> holds the values of the flag variables, one field per flag.
\<close>

record flags =
  flag_version :: int
  flag_suffix :: string
  flag_caseSensitive :: bool
  flag_bounce :: bool
  flag_threads :: int
  flag_testnet :: bool
  flag_output :: string

datatype exit = UsageAndExit int  \<comment> \<open>\<^verbatim>\<open>PrintDefaults()\<close>, then \<^verbatim>\<open>os.Exit\<close> with this status\<close>

definition parseFlags :: "flags \<Rightarrow> exit + Config" where
  "parseFlags f =
     (if flag_suffix f = [] \<or> (flag_version f \<noteq> 4 \<and> flag_version f \<noteq> 5)
      then Inl (UsageAndExit 1)
      else Inr \<lparr>Version = flag_version f, Suffix = flag_suffix f,
                CaseSensitive = flag_caseSensitive f, Bounce = flag_bounce f,
                Threads = flag_threads f, Testnet = flag_testnet f,
                Output = flag_output f, Daemon = False\<rparr>)"

text \<open>
  \<^verbatim>\<open>main\<close> in normal mode: \<^verbatim>\<open>config := parseFlags(); runWalletGenerator(config)\<close>. (The
  \<^verbatim>\<open>stop\<close> command and the daemon start go through the library \<^verbatim>\<open>go-daemon\<close> and then
  run the same two calls.)
\<close>

definition main :: "int \<Rightarrow> (string \<rightharpoonup> string) \<Rightarrow> flags \<Rightarrow> exit + state" where
  "main numCPU fs f =
     (case parseFlags f of
        Inl ex \<Rightarrow> Inl ex
      | Inr config \<Rightarrow> Inr (runWalletGenerator numCPU fs config))"

text \<open>The found-reports on standard output, and the deltas the reporter has logged.\<close>

definition found_reports :: "state \<Rightarrow> nat" where
  "found_reports s = length (filter (\<lambda>l. l = ''=== FOUND ==='') (stdout s))"

fun deltas :: "logline list \<Rightarrow> 64 word list" where
  "deltas [] = []"
| "deltas (LProcessed d # ls) = d # deltas ls"
| "deltas (_ # ls) = deltas ls"

definition count_action :: "action \<Rightarrow> state \<Rightarrow> nat" where
  "count_action a s = length (filter (\<lambda>(i, b). b = a) (history s))"

definition actions_of :: "nat \<Rightarrow> state \<Rightarrow> action list" where
  "actions_of i s = map snd (filter (\<lambda>(j, b). j = i) (history s))"

subsection \<open>Invariants of a run\<close>

text \<open>
  The control points that wait for the increment, and those that lie after
  \<^verbatim>\<open>printFoundWallet\<close> or after a \<^verbatim>\<open>return\<close>.
\<close>

definition is_add :: "pc \<Rightarrow> bool" where "is_add p \<longleftrightarrow> p = AtAdd"

definition past_print :: "pc \<Rightarrow> bool" where "past_print p \<longleftrightarrow> p = AtOnce \<or> p = Exited"

text \<open>The control point right before \<^verbatim>\<open>printFoundWallet\<close>.\<close>

definition is_print :: "pc \<Rightarrow> bool" where
  "is_print p = (case p of AtPrint seed a \<Rightarrow> True | _ \<Rightarrow> False)"

text \<open>
  \<^verbatim>\<open>once.Do\<close> has run exactly when the channel is closed, \<^verbatim>\<open>close\<close> has run at most
  once, and nothing has panicked.
\<close>

definition once_inv :: "state \<Rightarrow> bool" where
  "once_inv s \<longleftrightarrow> onceDone s = stopChan s \<and> \<not> panicked s
     \<and> count_action ClosedChan s = (if stopChan s then 1 else 0)"

text \<open>
  The counter is the number of increments so far, and every iteration that missed the
  suffix has either incremented or stands right before its increment.
\<close>

definition add_inv :: "state \<Rightarrow> bool" where
  "add_inv s \<longleftrightarrow> counter s = of_nat (count_action Incremented s)
     \<and> count_action DeriveMissed s = count_action Incremented s + length (filter is_add (workers s))"

text \<open>
  Every found-report on standard output comes from one \<^verbatim>\<open>printFoundWallet\<close>, and each
  worker that ran it stands after it.
\<close>

definition report_inv :: "state \<Rightarrow> bool" where
  "report_inv s \<longleftrightarrow> found_reports s = count_action Reported s
     \<and> count_action Reported s \<le> length (filter past_print (workers s))"

text \<open>
  Every iteration that matched has either been reported or stands right before its report.
\<close>

definition match_inv :: "state \<Rightarrow> bool" where
  "match_inv s \<longleftrightarrow> count_action DeriveMatched s
      = count_action Reported s + length (filter is_print (workers s))"

text \<open>The deltas logged so far add up to the reporter's last sample.\<close>

definition delta_inv :: "state \<Rightarrow> bool" where
  "delta_inv s \<longleftrightarrow> sum_list (deltas (logs s)) = lastCount s"

text \<open>
  As long as the counter has not wrapped around, the last sample is at most the counter
  and the logged deltas, read as numbers, add up to the last sample.
\<close>

definition sample_inv :: "state \<Rightarrow> bool" where
  "sample_inv s \<longleftrightarrow> add_inv s \<and>
     (count_action Incremented s < 2 ^ 64 \<longrightarrow>
        lastCount s \<le> counter s
        \<and> sum_list (map unat (deltas (logs s))) = unat (lastCount s))"

subsection \<open>A concrete instance\<close>

text \<open>
  A stand-in for the wallet library, a configuration and an environment, on which the
  definitions above can be run: the derived address is the seed's words joined by
  spaces, and an empty seed is a derivation error.
\<close>

definition demo_lib :: "string lib" where
  "demo_lib = \<lparr>FromSeed = (\<lambda>seed v. if seed = [] then Inl ''empty seed'' else Inr (Join seed)),
               AddressString = (\<lambda>w t b. w), UnicodeLower = (\<lambda>s. s)\<rparr>"

definition demo_config :: Config where
  "demo_config = \<lparr>Version = 5, Suffix = ''ab'', CaseSensitive = False, Bounce = False,
                  Threads = 2, Testnet = False, Output = [], Daemon = False\<rparr>"

definition demo_flags :: flags where
  "demo_flags = \<lparr>flag_version = 5, flag_suffix = ''ab'', flag_caseSensitive = False,
                 flag_bounce = False, flag_threads = 2, flag_testnet = False, flag_output = []\<rparr>"

definition demo_env :: "string list \<Rightarrow> env" where
  "demo_env seed = \<lparr>newSeed = seed, timeNow = ''2024-01-01 00:00:00'', fileIO = IO_ok\<rparr>"

definition demo_start :: state where
  "demo_start = runWalletGenerator 8 Map.empty demo_config"

definition demo_out_config :: Config where
  "demo_out_config = demo_config\<lparr>Output := ''found.txt''\<rparr>"

text \<open>
  A run with an output file that exists already, up to the point where worker 0 has
  matched and stands before \<^verbatim>\<open>printFoundWallet\<close>.
\<close>

definition found_env :: env where
  "found_env = demo_env [''UQx'', ''AB'']"

definition demo_found :: state where
  "demo_found = run demo_lib demo_out_config [Sched 0 found_env, Sched 0 found_env]
                  (runWalletGenerator 8 [''found.txt'' \<mapsto> ''old''] demo_out_config)"

definition denied_env :: env where
  "denied_env = (demo_env [])\<lparr>fileIO := Open_fails ''denied''\<rparr>"

definition full_env :: env where
  "full_env = (demo_env [])\<lparr>fileIO := Write_fails 4 ''disk full''\<rparr>"

text \<open>
  Seeds that miss and that match the suffix \<open>ab\<close>, and three runs of two workers: in
  \<open>demo_race\<close> both workers pass the \<^verbatim>\<open>select\<close> before either has matched; in
  \<open>demo_quick\<close> worker 0 misses once and then matches before the first second is over;
  in \<open>demo_ticks\<close> the workers miss four times while the reporter samples twice.
\<close>

definition miss_env :: env where
  "miss_env = demo_env [''UQzz'']"

definition hit_env :: env where
  "hit_env = demo_env [''UQxAB'']"

definition other_hit_env :: env where
  "other_hit_env = demo_env [''UQyab'']"

definition bad_env :: env where
  "bad_env = demo_env []"

definition demo_race :: "event list" where
  "demo_race = [Sched 0 hit_env, Sched 1 other_hit_env, Sched 0 hit_env, Sched 1 other_hit_env,
                Sched 0 hit_env, Sched 1 other_hit_env, Sched 0 hit_env, Sched 1 other_hit_env]"

definition demo_quick :: "event list" where
  "demo_quick = [Sched 0 miss_env, Sched 0 miss_env, Sched 0 miss_env,
                 Sched 0 hit_env, Sched 0 hit_env, Sched 0 hit_env, Sched 0 hit_env,
                 Sched 1 miss_env, ReporterStop]"

definition demo_ticks :: "event list" where
  "demo_ticks = [Sched 0 miss_env, Sched 0 miss_env, Sched 0 miss_env, Tick,
                 Sched 1 miss_env, Sched 1 miss_env, Sched 1 miss_env,
                 Sched 0 miss_env, Sched 0 miss_env, Sched 0 miss_env, Tick,
                 Sched 1 miss_env, Sched 1 miss_env, Sched 1 miss_env]"

text \<open>The start of a run after worker 0 has entered its first iteration.\<close>

definition demo_entered :: state where
  "demo_entered = step demo_lib demo_config (Sched 0 bad_env) demo_start"

text \<open>The state of \<open>demo_quick\<close> right after worker 0 has closed the channel.\<close>

definition demo_stopped :: state where
  "demo_stopped = run demo_lib demo_config (take 7 demo_quick) demo_start"

section \<open>Properties\<close>

subsection \<open>Steps and their effect on each field\<close>

lemma step_cases [case_names idle enter observe fail match miss print once add tick rstop]:
  assumes "step L config ev s = s \<Longrightarrow> R"
    and "\<And>i e. \<lbrakk>\<not> panicked s; ev = Sched i e; i < length (workers s); workers s ! i = AtSelect;
            \<not> stopChan s;
            step L config ev s = s\<lparr>workers := (workers s)[i := AtDerive]\<rparr>\<rbrakk> \<Longrightarrow> R"
    and "\<And>i e. \<lbrakk>\<not> panicked s; ev = Sched i e; i < length (workers s); workers s ! i = AtSelect;
            stopChan s;
            step L config ev s = goto i Exited ObservedStop s\<rbrakk> \<Longrightarrow> R"
    and "\<And>i e err. \<lbrakk>\<not> panicked s; ev = Sched i e; i < length (workers s); workers s ! i = AtDerive;
            derive L config (newSeed e) = Inl err;
            step L config ev s = goto i AtSelect DeriveFailed (s\<lparr>logs := logs s @ [LFailed err]\<rparr>)\<rbrakk> \<Longrightarrow> R"
    and "\<And>i e a. \<lbrakk>\<not> panicked s; ev = Sched i e; i < length (workers s); workers s ! i = AtDerive;
            derive L config (newSeed e) = Inr a;
            matches (UnicodeLower L) a (Suffix config) (CaseSensitive config);
            step L config ev s = goto i (AtPrint (newSeed e) a) DeriveMatched s\<rbrakk> \<Longrightarrow> R"
    and "\<And>i e a. \<lbrakk>\<not> panicked s; ev = Sched i e; i < length (workers s); workers s ! i = AtDerive;
            derive L config (newSeed e) = Inr a;
            \<not> matches (UnicodeLower L) a (Suffix config) (CaseSensitive config);
            step L config ev s = goto i AtAdd DeriveMissed s\<rbrakk> \<Longrightarrow> R"
    and "\<And>i e seed a. \<lbrakk>\<not> panicked s; ev = Sched i e; i < length (workers s);
            workers s ! i = AtPrint seed a;
            step L config ev s = goto i AtOnce Reported (printFoundWallet e seed a (Output config) s)\<rbrakk> \<Longrightarrow> R"
    and "\<And>i e. \<lbrakk>\<not> panicked s; ev = Sched i e; i < length (workers s); workers s ! i = AtOnce;
            step L config ev s = (onceDo i s)\<lparr>workers := (workers s)[i := Exited]\<rparr>\<rbrakk> \<Longrightarrow> R"
    and "\<And>i e. \<lbrakk>\<not> panicked s; ev = Sched i e; i < length (workers s); workers s ! i = AtAdd;
            step L config ev s = goto i AtSelect Incremented (s\<lparr>counter := counter s + 1\<rparr>)\<rbrakk> \<Longrightarrow> R"
    and "\<lbrakk>\<not> panicked s; ev = Tick; reporter s = RSelect;
            step L config ev s = s\<lparr>lastCount := counter s,
               logs := logs s @ [LProcessed (counter s - lastCount s)]\<rparr>\<rbrakk> \<Longrightarrow> R"
    and "\<lbrakk>\<not> panicked s; ev = ReporterStop; reporter s = RSelect; stopChan s;
            step L config ev s = s\<lparr>reporter := RExited\<rparr>\<rbrakk> \<Longrightarrow> R"
  shows R
proof (cases "panicked s")
  case True
  then have "step L config ev s = s" by (simp add: step_def)
  then show R by (rule assms(1))
next
  case np: False
  show R
  proof (cases ev)
    case (Sched i e)
    show R
    proof (cases "i < length (workers s)")
      case False
      with np Sched have "step L config ev s = s" by (simp add: step_def)
      then show R by (rule assms(1))
    next
      case lt: True
      have st: "step L config ev s = worker_step L config i e s"
        using np Sched lt by (simp add: step_def)
      show R
      proof (cases "workers s ! i")
        case AtSelect
        show R
        proof (cases "stopChan s")
          case True
          with AtSelect st have "step L config ev s = goto i Exited ObservedStop s"
            by (simp add: worker_step_def)
          with np Sched lt AtSelect True show R by (rule assms(3))
        next
          case False
          with AtSelect st have "step L config ev s = s\<lparr>workers := (workers s)[i := AtDerive]\<rparr>"
            by (simp add: worker_step_def)
          with np Sched lt AtSelect False show R by (rule assms(2))
        qed
      next
        case AtDerive
        show R
        proof (cases "derive L config (newSeed e)")
          case (Inl err)
          with AtDerive st
          have "step L config ev s = goto i AtSelect DeriveFailed (s\<lparr>logs := logs s @ [LFailed err]\<rparr>)"
            by (simp add: worker_step_def)
          with np Sched lt AtDerive Inl show R by (rule assms(4))
        next
          case (Inr a)
          show R
          proof (cases "matches (UnicodeLower L) a (Suffix config) (CaseSensitive config)")
            case True
            with AtDerive st Inr
            have "step L config ev s = goto i (AtPrint (newSeed e) a) DeriveMatched s"
              by (simp add: worker_step_def)
            with np Sched lt AtDerive Inr True show R by (rule assms(5))
          next
            case False
            with AtDerive st Inr
            have "step L config ev s = goto i AtAdd DeriveMissed s"
              by (simp add: worker_step_def)
            with np Sched lt AtDerive Inr False show R by (rule assms(6))
          qed
        qed
      next
        case (AtPrint seed a)
        with st
        have "step L config ev s = goto i AtOnce Reported (printFoundWallet e seed a (Output config) s)"
          by (simp add: worker_step_def)
        with np Sched lt AtPrint show R by (rule assms(7))
      next
        case AtOnce
        with st have "step L config ev s = (onceDo i s)\<lparr>workers := (workers s)[i := Exited]\<rparr>"
          by (simp add: worker_step_def)
        with np Sched lt AtOnce show R by (rule assms(8))
      next
        case AtAdd
        with st have "step L config ev s = goto i AtSelect Incremented (s\<lparr>counter := counter s + 1\<rparr>)"
          by (simp add: worker_step_def)
        with np Sched lt AtAdd show R by (rule assms(9))
      next
        case Exited
        with st have "step L config ev s = s" by (simp add: worker_step_def)
        then show R by (rule assms(1))
      qed
    qed
  next
    case Tick
    show R
    proof (cases "reporter s")
      case RSelect
      with np Tick
      have "step L config ev s = s\<lparr>lastCount := counter s,
               logs := logs s @ [LProcessed (counter s - lastCount s)]\<rparr>"
        by (simp add: step_def reporter_tick_def Let_def)
      with np Tick RSelect show R by (rule assms(10))
    next
      case RExited
      with np Tick have "step L config ev s = s" by (simp add: step_def reporter_tick_def)
      then show R by (rule assms(1))
    qed
  next
    case ReporterStop
    show R
    proof (cases "reporter s = RSelect \<and> stopChan s")
      case True
      with np ReporterStop have "step L config ev s = s\<lparr>reporter := RExited\<rparr>"
        by (simp add: step_def reporter_stop_def)
      with np ReporterStop True show R by (auto intro: assms(11))
    next
      case False
      with np ReporterStop have "step L config ev s = s"
        by (cases "reporter s") (auto simp add: step_def reporter_stop_def)
      then show R by (rule assms(1))
    qed
  qed
qed

lemma filter_update_length:
  "i < length xs \<Longrightarrow>
   length (filter P (xs[i := y])) + (if P (xs ! i) then 1 else 0)
     = length (filter P xs) + (if P y then 1 else 0)"
proof (induction xs arbitrary: i)
  case Nil
  then show ?case by simp
next
  case (Cons x xs)
  show ?case
  proof (cases i)
    case 0
    then show ?thesis by simp
  next
    case (Suc j)
    with Cons.prems have "j < length xs" by simp
    from Cons.IH [OF this] Suc show ?thesis by simp
  qed
qed

lemma deltas_append: "deltas (xs @ ys) = deltas xs @ deltas ys"
  by (induction xs rule: deltas.induct) simp_all

lemma printFoundWallet_frame:
  "counter (printFoundWallet e seed a out s) = counter s"
  "workers (printFoundWallet e seed a out s) = workers s"
  "history (printFoundWallet e seed a out s) = history s"
  "stopChan (printFoundWallet e seed a out s) = stopChan s"
  "onceDone (printFoundWallet e seed a out s) = onceDone s"
  "panicked (printFoundWallet e seed a out s) = panicked s"
  "lastCount (printFoundWallet e seed a out s) = lastCount s"
  "reporter (printFoundWallet e seed a out s) = reporter s"
  by (simp_all add: printFoundWallet_def Let_def writeToFile_def split: io_outcome.splits)

lemma printFoundWallet_deltas:
  "deltas (logs (printFoundWallet e seed a out s)) = deltas (logs s)"
  by (simp add: printFoundWallet_def Let_def writeToFile_def deltas_append split: io_outcome.splits)

lemma printFoundWallet_reports:
  "found_reports (printFoundWallet e seed a out s) = Suc (found_reports s)"
  by (simp add: printFoundWallet_def Let_def writeToFile_def found_reports_def split: io_outcome.splits)

lemma count_action_goto:
  "count_action b (goto i p a s) = count_action b s + (if a = b then 1 else 0)"
  by (simp add: count_action_def goto_def)

lemma goto_frame:
  "counter (goto i p a s) = counter s"
  "workers (goto i p a s) = (workers s)[i := p]"
  "history (goto i p a s) = history s @ [(i, a)]"
  "stopChan (goto i p a s) = stopChan s"
  "onceDone (goto i p a s) = onceDone s"
  "panicked (goto i p a s) = panicked s"
  "lastCount (goto i p a s) = lastCount s"
  "reporter (goto i p a s) = reporter s"
  "logs (goto i p a s) = logs s"
  "stdout (goto i p a s) = stdout s"
  "files (goto i p a s) = files s"
  by (simp_all add: goto_def)

lemma onceDo_frame:
  "counter (onceDo i s) = counter s"
  "workers (onceDo i s) = workers s"
  "lastCount (onceDo i s) = lastCount s"
  "reporter (onceDo i s) = reporter s"
  "logs (onceDo i s) = logs s"
  "stdout (onceDo i s) = stdout s"
  "files (onceDo i s) = files s"
  by (simp_all add: onceDo_def closeChan_def)

lemma onceDo_history:
  "history (onceDo i s) = history s @ [(i, if onceDone s then OnceSkipped else ClosedChan)]"
  by (simp add: onceDo_def closeChan_def)

lemma count_action_frame:
  "history s' = history s \<Longrightarrow> count_action b s' = count_action b s"
  by (simp add: count_action_def)

lemma count_action_snoc:
  "history s' = history s @ [(i, a)] \<Longrightarrow>
   count_action b s' = count_action b s + (if a = b then 1 else 0)"
  by (simp add: count_action_def)

lemma actions_of_snoc:
  "history s' = history s @ [(j, a)] \<Longrightarrow>
   actions_of i s' = actions_of i s @ (if j = i then [a] else [])"
  by (simp add: actions_of_def)

lemma actions_of_frame: "history s' = history s \<Longrightarrow> actions_of i s' = actions_of i s"
  by (simp add: actions_of_def)

lemma run_append: "run L config (xs @ ys) s = run L config ys (run L config xs s)"
  by (induction xs arbitrary: s) simp_all

lemma run_invariant:
  assumes "\<And>s ev. P s \<Longrightarrow> P (step L config ev s)" and "P s"
  shows "P (run L config evs s)"
  using assms(2)
proof (induction evs arbitrary: s)
  case Nil
  then show ?case by simp
next
  case (Cons ev evs)
  from Cons.prems have "P (step L config ev s)" by (rule assms(1))
  then show ?case by (simp add: Cons.IH)
qed

subsection \<open>Invariants along a run\<close>

lemma once_inv_step: "once_inv s \<Longrightarrow> once_inv (step L config ev s)"
proof (cases rule: step_cases [of L config ev s])
  case idle
  assume "once_inv s" with idle show ?thesis by simp
next
  case (once i e)
  assume "once_inv s"
  with once(5) show ?thesis
    by (simp add: once_inv_def onceDo_def closeChan_def count_action_def)
qed (simp_all add: once_inv_def goto_frame printFoundWallet_frame count_action_goto
       count_action_def)

lemma add_inv_step:
  assumes "add_inv s"
  shows "add_inv (step L config ev s)"
proof (cases rule: step_cases [of L config ev s])
  case idle
  with assms show ?thesis by simp
next
  case (enter i e)
  with assms filter_update_length [of i "workers s" is_add AtDerive] show ?thesis
    by (simp add: add_inv_def is_add_def count_action_def)
next
  case (observe i e)
  with assms filter_update_length [of i "workers s" is_add Exited] show ?thesis
    by (simp add: add_inv_def is_add_def goto_frame count_action_goto)
next
  case (fail i e err)
  with assms filter_update_length [of i "workers s" is_add AtSelect] show ?thesis
    by (simp add: add_inv_def is_add_def goto_frame count_action_goto count_action_def)
next
  case (match i e a)
  with assms filter_update_length [of i "workers s" is_add "AtPrint (newSeed e) a"] show ?thesis
    by (simp add: add_inv_def is_add_def goto_frame count_action_goto)
next
  case (miss i e a)
  with assms filter_update_length [of i "workers s" is_add AtAdd] show ?thesis
    by (simp add: add_inv_def is_add_def goto_frame count_action_goto)
next
  case (print i e seed a)
  with assms filter_update_length [of i "workers s" is_add AtOnce] show ?thesis
    by (simp add: add_inv_def is_add_def goto_frame count_action_goto printFoundWallet_frame
        count_action_frame [of "printFoundWallet e seed a (Output config) s" s])
next
  case (once i e)
  with assms filter_update_length [of i "workers s" is_add Exited] show ?thesis
    by (simp add: add_inv_def is_add_def onceDo_frame count_action_def onceDo_history)
next
  case (add i e)
  with assms filter_update_length [of i "workers s" is_add AtSelect] show ?thesis
    by (simp add: add_inv_def is_add_def goto_frame count_action_goto count_action_def)
next
  case tick
  with assms show ?thesis by (simp add: add_inv_def count_action_def)
next
  case rstop
  with assms show ?thesis by (simp add: add_inv_def count_action_def)
qed

lemma report_inv_step:
  assumes "report_inv s"
  shows "report_inv (step L config ev s)"
proof (cases rule: step_cases [of L config ev s])
  case idle
  with assms show ?thesis by simp
next
  case (enter i e)
  with assms filter_update_length [of i "workers s" past_print AtDerive] show ?thesis
    by (simp add: report_inv_def past_print_def count_action_def found_reports_def)
next
  case (observe i e)
  with assms filter_update_length [of i "workers s" past_print Exited] show ?thesis
    by (simp add: report_inv_def past_print_def goto_frame count_action_goto found_reports_def)
next
  case (fail i e err)
  with assms filter_update_length [of i "workers s" past_print AtSelect] show ?thesis
    by (simp add: report_inv_def past_print_def goto_frame count_action_goto count_action_def
        found_reports_def)
next
  case (match i e a)
  with assms filter_update_length [of i "workers s" past_print "AtPrint (newSeed e) a"] show ?thesis
    by (simp add: report_inv_def past_print_def goto_frame count_action_goto found_reports_def)
next
  case (miss i e a)
  with assms filter_update_length [of i "workers s" past_print AtAdd] show ?thesis
    by (simp add: report_inv_def past_print_def goto_frame count_action_goto found_reports_def)
next
  case (print i e seed a)
  have "found_reports (step L config ev s) = Suc (found_reports s)"
    using print(5) printFoundWallet_reports [of e seed a "Output config" s]
    by (simp add: found_reports_def goto_frame)
  moreover have "count_action Reported (step L config ev s) = Suc (count_action Reported s)"
    using print(5)
    by (simp add: count_action_goto
        count_action_frame [of "printFoundWallet e seed a (Output config) s" s]
        printFoundWallet_frame)
  moreover have "length (filter past_print (workers (step L config ev s)))
      = Suc (length (filter past_print (workers s)))"
    using print filter_update_length [of i "workers s" past_print AtOnce]
    by (simp add: past_print_def goto_frame printFoundWallet_frame)
  ultimately show ?thesis using assms by (simp add: report_inv_def)
next
  case (once i e)
  with assms filter_update_length [of i "workers s" past_print Exited] show ?thesis
    by (simp add: report_inv_def past_print_def onceDo_frame count_action_def onceDo_history
        found_reports_def)
next
  case (add i e)
  with assms filter_update_length [of i "workers s" past_print AtSelect] show ?thesis
    by (simp add: report_inv_def past_print_def goto_frame count_action_goto count_action_def
        found_reports_def)
next
  case tick
  with assms show ?thesis by (simp add: report_inv_def count_action_def found_reports_def)
next
  case rstop
  with assms show ?thesis by (simp add: report_inv_def count_action_def found_reports_def)
qed

lemma delta_inv_step:
  assumes "delta_inv s"
  shows "delta_inv (step L config ev s)"
proof (cases rule: step_cases [of L config ev s])
  case (print i e seed a)
  with assms show ?thesis
    by (simp add: delta_inv_def goto_frame printFoundWallet_frame printFoundWallet_deltas)
next
  case (once i e)
  with assms show ?thesis by (simp add: delta_inv_def onceDo_frame)
qed (insert assms, simp_all add: delta_inv_def goto_frame deltas_append)

lemma match_inv_step:
  assumes "match_inv s"
  shows "match_inv (step L config ev s)"
proof (cases rule: step_cases [of L config ev s])
  case idle
  with assms show ?thesis by simp
next
  case (enter i e)
  with assms filter_update_length [of i "workers s" is_print AtDerive] show ?thesis
    by (simp add: match_inv_def is_print_def count_action_def)
next
  case (observe i e)
  with assms filter_update_length [of i "workers s" is_print Exited] show ?thesis
    by (simp add: match_inv_def is_print_def goto_frame count_action_goto)
next
  case (fail i e err)
  with assms filter_update_length [of i "workers s" is_print AtSelect] show ?thesis
    by (simp add: match_inv_def is_print_def goto_frame count_action_goto count_action_def)
next
  case (match i e a)
  with assms filter_update_length [of i "workers s" is_print "AtPrint (newSeed e) a"] show ?thesis
    by (simp add: match_inv_def is_print_def goto_frame count_action_goto)
next
  case (miss i e a)
  with assms filter_update_length [of i "workers s" is_print AtAdd] show ?thesis
    by (simp add: match_inv_def is_print_def goto_frame count_action_goto)
next
  case (print i e seed a)
  with assms filter_update_length [of i "workers s" is_print AtOnce] show ?thesis
    by (simp add: match_inv_def is_print_def goto_frame count_action_goto printFoundWallet_frame
        count_action_frame [of "printFoundWallet e seed a (Output config) s" s])
next
  case (once i e)
  with assms filter_update_length [of i "workers s" is_print Exited] show ?thesis
    by (simp add: match_inv_def is_print_def onceDo_frame count_action_def onceDo_history)
next
  case (add i e)
  with assms filter_update_length [of i "workers s" is_print AtSelect] show ?thesis
    by (simp add: match_inv_def is_print_def goto_frame count_action_goto count_action_def)
next
  case tick
  with assms show ?thesis by (simp add: match_inv_def count_action_def)
next
  case rstop
  with assms show ?thesis by (simp add: match_inv_def count_action_def)
qed

lemma count_action_step:
  "count_action b s \<le> count_action b (step L config ev s)
   \<and> count_action b (step L config ev s) \<le> Suc (count_action b s)"
proof (cases rule: step_cases [of L config ev s])
  case (print i e seed a)
  then show ?thesis
    by (simp add: count_action_goto printFoundWallet_frame
        count_action_frame [of "printFoundWallet e seed a (Output config) s" s])
next
  case (once i e)
  then show ?thesis by (simp add: count_action_def onceDo_history)
qed (simp_all add: count_action_goto, simp_all add: count_action_def)

lemma count_action_run:
  "count_action b s \<le> count_action b (run L config evs s)
   \<and> count_action b (run L config evs s) \<le> count_action b s + length evs"
proof (induction evs arbitrary: s)
  case Nil
  then show ?case by simp
next
  case (Cons ev evs)
  from Cons.IH [of "step L config ev s"] count_action_step [of b s L config ev]
  show ?case by simp
qed

lemma stopChan_step: "stopChan s \<Longrightarrow> stopChan (step L config ev s)"
proof (cases rule: step_cases [of L config ev s])
  case (once i e)
  assume "stopChan s"
  with once show ?thesis by (simp add: onceDo_def closeChan_def)
qed (simp_all add: goto_frame printFoundWallet_frame)

lemma stopChan_run: "stopChan s \<Longrightarrow> stopChan (run L config evs s)"
  by (rule run_invariant) (rule stopChan_step)

lemma counter_step:
  "counter (step L config ev s) = counter s \<or> counter (step L config ev s) = counter s + 1"
  by (cases rule: step_cases [of L config ev s])
     (simp_all add: goto_frame printFoundWallet_frame onceDo_frame)

lemma length_workers_step: "length (workers (step L config ev s)) = length (workers s)"
  by (cases rule: step_cases [of L config ev s])
     (simp_all add: goto_frame printFoundWallet_frame onceDo_frame)

lemma length_workers_run: "length (workers (run L config evs s)) = length (workers s)"
  by (induction evs arbitrary: s) (simp_all add: length_workers_step)

lemma init_fields:
  "history (runWalletGenerator numCPU fs config) = []"
  "counter (runWalletGenerator numCPU fs config) = 0"
  "lastCount (runWalletGenerator numCPU fs config) = 0"
  "stdout (runWalletGenerator numCPU fs config) = []"
  "logs (runWalletGenerator numCPU fs config) = [LUsing (Threads (resolveThreads numCPU config))]"
  "workers (runWalletGenerator numCPU fs config)
     = replicate (nat (Threads (resolveThreads numCPU config))) AtSelect"
  "\<not> stopChan (runWalletGenerator numCPU fs config)"
  "\<not> onceDone (runWalletGenerator numCPU fs config)"
  "\<not> panicked (runWalletGenerator numCPU fs config)"
  "reporter (runWalletGenerator numCPU fs config) = RSelect"
  by (simp_all add: runWalletGenerator_def Let_def)

lemma init_invs:
  "once_inv (runWalletGenerator numCPU fs config)"
  "add_inv (runWalletGenerator numCPU fs config)"
  "report_inv (runWalletGenerator numCPU fs config)"
  "delta_inv (runWalletGenerator numCPU fs config)"
  "match_inv (runWalletGenerator numCPU fs config)"
  by (simp_all add: once_inv_def add_inv_def report_inv_def delta_inv_def match_inv_def
      count_action_def found_reports_def init_fields is_add_def is_print_def)

lemma add_inv_unat:
  assumes "add_inv s" and "count_action Incremented s < 2 ^ 64"
  shows "unat (counter s) = count_action Incremented s"
proof -
  from assms(1) have "counter s = of_nat (count_action Incremented s)"
    by (simp add: add_inv_def)
  then have "unat (counter s) = count_action Incremented s mod 2 ^ 64"
    by (simp add: unat_of_nat)
  with assms(2) show ?thesis by simp
qed

lemma sample_inv_step:
  assumes "sample_inv s"
  shows "sample_inv (step L config ev s)"
proof -
  from assms have a: "add_inv s" by (simp add: sample_inv_def)
  then have a': "add_inv (step L config ev s)" by (rule add_inv_step)
  show ?thesis
  proof (cases "count_action Incremented (step L config ev s) < 2 ^ 64")
    case False
    with a' show ?thesis by (simp add: sample_inv_def)
  next
    case lt': True
    with count_action_step [of Incremented s L config ev]
    have lt: "count_action Incremented s < 2 ^ 64" by simp
    with assms have le: "lastCount s \<le> counter s"
      and sm: "sum_list (map unat (deltas (logs s))) = unat (lastCount s)"
      by (simp_all add: sample_inv_def)
    have u: "unat (counter s) = count_action Incremented s"
      using a lt by (rule add_inv_unat)
    have u': "unat (counter (step L config ev s)) = count_action Incremented (step L config ev s)"
      using a' lt' by (rule add_inv_unat)
    have mono: "counter s \<le> counter (step L config ev s)"
      using u u' count_action_step [of Incremented s L config ev]
      by (simp add: word_le_nat_alt)
    have "lastCount (step L config ev s) \<le> counter (step L config ev s)
        \<and> sum_list (map unat (deltas (logs (step L config ev s))))
            = unat (lastCount (step L config ev s))"
    proof (cases rule: step_cases [of L config ev s])
      case idle
      with le sm show ?thesis by simp
    next
      case (print i e seed a)
      with le sm show ?thesis
        by (simp add: goto_frame printFoundWallet_frame printFoundWallet_deltas)
    next
      case (once i e)
      with le sm show ?thesis by (simp add: onceDo_frame)
    next
      case (add i e)
      from add(5) have "lastCount (step L config ev s) = lastCount s"
        "logs (step L config ev s) = logs s"
        by (simp_all add: goto_frame)
      with le sm mono show ?thesis by simp
    next
      case tick
      from le have "unat (counter s - lastCount s) = unat (counter s) - unat (lastCount s)"
        by (rule unat_sub)
      moreover from le have "unat (lastCount s) \<le> unat (counter s)"
        by (simp add: word_le_nat_alt)
      ultimately show ?thesis using tick sm by (simp add: deltas_append)
    qed (insert le sm, simp_all add: goto_frame deltas_append)
    with a' show ?thesis by (simp add: sample_inv_def)
  qed
qed

lemma init_sample_inv: "sample_inv (runWalletGenerator numCPU fs config)"
  by (simp add: sample_inv_def init_invs init_fields)

lemma finished_no_add: "finished s \<Longrightarrow> filter is_add (workers s) = []"
  by (auto simp add: finished_def is_add_def list_all_iff filter_empty_conv)

lemma exited_step:
  assumes "i < length (workers s)" and "workers s ! i = Exited"
  shows "workers (step L config ev s) ! i = Exited
    \<and> actions_of i (step L config ev s) = actions_of i s"
proof (cases rule: step_cases [of L config ev s])
  case idle
  with assms show ?thesis by simp
next
  case (enter j e)
  with assms have "j \<noteq> i" by auto
  with enter assms show ?thesis by (simp add: actions_of_def)
next
  case (observe j e)
  with assms have "j \<noteq> i" by auto
  with observe assms show ?thesis by (simp add: goto_frame actions_of_def)
next
  case (fail j e err)
  with assms have "j \<noteq> i" by auto
  with fail assms show ?thesis by (simp add: goto_frame actions_of_def)
next
  case (match j e a)
  with assms have "j \<noteq> i" by auto
  with match assms show ?thesis by (simp add: goto_frame actions_of_def)
next
  case (miss j e a)
  with assms have "j \<noteq> i" by auto
  with miss assms show ?thesis by (simp add: goto_frame actions_of_def)
next
  case (print j e seed a)
  with assms have "j \<noteq> i" by auto
  with print assms show ?thesis
    by (simp add: goto_frame actions_of_def printFoundWallet_frame)
next
  case (once j e)
  with assms have "j \<noteq> i" by auto
  with once assms show ?thesis by (simp add: onceDo_frame onceDo_history actions_of_def)
next
  case (add j e)
  with assms have "j \<noteq> i" by auto
  with add assms show ?thesis by (simp add: goto_frame actions_of_def)
next
  case tick
  with assms show ?thesis by (simp add: actions_of_def)
next
  case rstop
  with assms show ?thesis by (simp add: actions_of_def)
qed

lemma exited_run:
  assumes "i < length (workers s)" and "workers s ! i = Exited"
  shows "workers (run L config evs s) ! i = Exited
    \<and> actions_of i (run L config evs s) = actions_of i s"
  using assms
proof (induction evs arbitrary: s)
  case Nil
  then show ?case by simp
next
  case (Cons ev evs)
  from exited_step [OF Cons.prems, of L config ev]
  have 1: "workers (step L config ev s) ! i = Exited"
    and 2: "actions_of i (step L config ev s) = actions_of i s"
    by simp_all
  from Cons.prems(1) have 3: "i < length (workers (step L config ev s))"
    by (simp add: length_workers_step)
  from Cons.IH [OF 3 1] 2 show ?case by simp
qed

lemma reporter_exited_step:
  assumes "reporter s = RExited"
  shows "reporter (step L config ev s) = RExited
    \<and> lastCount (step L config ev s) = lastCount s
    \<and> deltas (logs (step L config ev s)) = deltas (logs s)"
proof (cases rule: step_cases [of L config ev s])
  case (print i e seed a)
  with assms show ?thesis
    by (simp add: goto_frame printFoundWallet_frame printFoundWallet_deltas)
next
  case (once i e)
  with assms show ?thesis
    by (simp add: onceDo_frame onceDo_def closeChan_def)
qed (insert assms, simp_all add: goto_frame deltas_append)

lemma reporter_exited_run:
  assumes "reporter s = RExited"
  shows "reporter (run L config evs s) = RExited
    \<and> lastCount (run L config evs s) = lastCount s
    \<and> deltas (logs (run L config evs s)) = deltas (logs s)"
  using assms
proof (induction evs arbitrary: s)
  case Nil
  then show ?case by simp
next
  case (Cons ev evs)
  from reporter_exited_step [OF Cons.prems, of L config ev]
  have 1: "reporter (step L config ev s) = RExited"
    and 2: "lastCount (step L config ev s) = lastCount s"
      "deltas (logs (step L config ev s)) = deltas (logs s)"
    by simp_all
  from Cons.IH [OF 1] 2 show ?case by simp
qed

lemma no_workers_step:
  assumes "workers s = []"
  shows "workers (step L config ev s) = [] \<and> history (step L config ev s) = history s
    \<and> stdout (step L config ev s) = stdout s \<and> counter (step L config ev s) = counter s"
  by (cases rule: step_cases [of L config ev s]) (insert assms, simp_all)

lemma no_workers_run:
  assumes "workers s = []"
  shows "workers (run L config evs s) = [] \<and> history (run L config evs s) = history s
    \<and> stdout (run L config evs s) = stdout s \<and> counter (run L config evs s) = counter s"
  using assms
proof (induction evs arbitrary: s)
  case Nil
  then show ?case by simp
next
  case (Cons ev evs)
  from no_workers_step [OF Cons.prems, of L config ev]
  have 1: "workers (step L config ev s) = []"
    and 2: "history (step L config ev s) = history s" "stdout (step L config ev s) = stdout s"
      "counter (step L config ev s) = counter s"
    by simp_all
  from Cons.IH [OF 1] 2 show ?case by simp
qed

lemma enter_step:
  assumes "\<not> panicked s" and "\<not> stopChan s" and "i < length (workers s)"
    and "workers s ! i = AtSelect"
  shows "workers (step L config (Sched i e) s) ! i = AtDerive"
  using assms by (simp add: step_def worker_step_def)

subsection \<open>The suffix comparison\<close>

lemma HasSuffix_iff_suffix: "HasSuffix s suf \<longleftrightarrow> suffix suf s"
proof
  assume h: "HasSuffix s suf"
  then have "s = take (length s - length suf) s @ suf"
    by (metis HasSuffix_def append_take_drop_id)
  then show "suffix suf s"
    by (metis suffixI)
next
  assume "suffix suf s"
  then obtain p where "s = p @ suf"
    by (auto simp: suffix_def)
  then show "HasSuffix s suf"
    by (simp add: HasSuffix_def)
qed

lemma ToLower_empty: "ToLower uni [] = []"
  by (simp add: ToLower_def isASCII_def)

lemma matches_scenarios:
  "matches uni ''UQDxXAB'' ''AB'' True"
  "\<not> matches uni ''UQDxXab'' ''AB'' True"
  "matches uni ''UQDxXAB'' ''ab'' False"
  "ToLower uni ''UQDx_-9XAB'' = ''uqdx_-9xab''"
  by code_simp+

subsection \<open>The claims\<close>

text \<open>
  C1, as the code has it. In every run the channel is closed at most once (exactly when
  the termination signal is raised) and nothing panics; every found-report on standard
  output is the \<^verbatim>\<open>printFoundWallet\<close> of a worker whose iteration matched, and there are
  at most as many reports as workers. A worker prints its report before it calls
  \<^verbatim>\<open>once.Do\<close>, so the workers that lose that race have printed theirs too.
\<close>

theorem C1_reports_and_signal:
  "found_reports (run L config evs (runWalletGenerator numCPU fs config))
      \<le> length (workers (run L config evs (runWalletGenerator numCPU fs config)))
   \<and> length (workers (run L config evs (runWalletGenerator numCPU fs config)))
      = nat (Threads (resolveThreads numCPU config))
   \<and> found_reports (run L config evs (runWalletGenerator numCPU fs config))
      = count_action Reported (run L config evs (runWalletGenerator numCPU fs config))
   \<and> count_action Reported (run L config evs (runWalletGenerator numCPU fs config))
      \<le> count_action DeriveMatched (run L config evs (runWalletGenerator numCPU fs config))
   \<and> count_action ClosedChan (run L config evs (runWalletGenerator numCPU fs config))
      = (if stopChan (run L config evs (runWalletGenerator numCPU fs config)) then 1 else 0)
   \<and> \<not> panicked (run L config evs (runWalletGenerator numCPU fs config))"
proof -
  define sR where "sR = run L config evs (runWalletGenerator numCPU fs config)"
  have r: "report_inv sR"
    unfolding sR_def by (rule run_invariant) (erule report_inv_step, rule init_invs)
  have m: "match_inv sR"
    unfolding sR_def by (rule run_invariant) (erule match_inv_step, rule init_invs)
  have c: "once_inv sR"
    unfolding sR_def by (rule run_invariant) (erule once_inv_step, rule init_invs)
  have l: "length (workers sR) = nat (Threads (resolveThreads numCPU config))"
    unfolding sR_def by (simp add: length_workers_run init_fields)
  have "length (filter past_print (workers sR)) \<le> length (workers sR)"
    by (rule length_filter_le)
  with r m c l show ?thesis
    unfolding sR_def [symmetric]
    by (simp add: report_inv_def match_inv_def once_inv_def)
qed

text \<open>
  C1 fails as stated: two workers that both pass the \<^verbatim>\<open>select\<close> before either closes
  the channel, and both match, print two found-reports.
\<close>

theorem C1_duplicate_reports_counterexample:
  "\<not> found_reports (run demo_lib demo_config demo_race demo_start) \<le> 1"
  by code_simp

text \<open>
  C2. With \<open>case_sensitive = true\<close> the comparison holds exactly when the address ends
  with the suffix byte for byte; with \<open>case_sensitive = false\<close> it holds exactly when
  the lower-cased whole address ends with the lower-cased whole suffix; an empty suffix
  matches in both modes.
\<close>

theorem C2_suffix_match:
  "matches uni a s True = (\<exists>p. a = p @ s)
   \<and> matches uni a s False = (\<exists>p. ToLower uni a = p @ ToLower uni s)
   \<and> matches uni a [] cs"
  by (simp add: matches_def HasSuffix_iff_suffix suffix_def ToLower_empty)

text \<open>
  C3. A worker whose derivation fails in an iteration logs the failure and goes back to
  the head of its loop: the counter, the termination signal and the \<^verbatim>\<open>sync.Once\<close> are
  unchanged, nothing is printed or written, nothing panics, no other worker is touched
  (only position \<open>i\<close> of the workers changes, and not to \<open>Exited\<close>), and, unless the
  signal has been raised meanwhile, the worker's next step enters the next iteration.
\<close>

theorem C3_derivation_failure:
  assumes "\<not> panicked s" and "i < length (workers s)" and "workers s ! i = AtDerive"
    and "derive L config (newSeed e) = Inl err"
  shows "logs (step L config (Sched i e) s) = logs s @ [LFailed err]
    \<and> workers (step L config (Sched i e) s) = (workers s)[i := AtSelect]
    \<and> counter (step L config (Sched i e) s) = counter s
    \<and> stopChan (step L config (Sched i e) s) = stopChan s
    \<and> onceDone (step L config (Sched i e) s) = onceDone s
    \<and> \<not> panicked (step L config (Sched i e) s)
    \<and> stdout (step L config (Sched i e) s) = stdout s
    \<and> files (step L config (Sched i e) s) = files s
    \<and> history (step L config (Sched i e) s) = history s @ [(i, DeriveFailed)]
    \<and> (\<not> stopChan s \<longrightarrow>
         workers (step L config (Sched i e') (step L config (Sched i e) s)) ! i = AtDerive)"
  using assms
  by (simp add: step_def worker_step_def goto_def)

theorem C3_derivation_failure_witness:
  "logs (step demo_lib demo_config (Sched 0 bad_env) demo_entered)
     = [LUsing 2, LFailed ''empty seed'']
   \<and> workers (step demo_lib demo_config (Sched 0 bad_env) demo_entered) = [AtSelect, AtSelect]
   \<and> counter (step demo_lib demo_config (Sched 0 bad_env) demo_entered) = 0
   \<and> \<not> stopChan (step demo_lib demo_config (Sched 0 bad_env) demo_entered)
   \<and> \<not> panicked (step demo_lib demo_config (Sched 0 bad_env) demo_entered)
   \<and> workers (step demo_lib demo_config (Sched 0 miss_env)
        (step demo_lib demo_config (Sched 0 bad_env) demo_entered)) ! 0 = AtDerive"
proof -
  have h: "\<not> panicked demo_entered" "0 < length (workers demo_entered)"
    "workers demo_entered ! 0 = AtDerive"
    "derive demo_lib demo_config (newSeed bad_env) = Inl ''empty seed''"
    by code_simp+
  have v: "logs demo_entered = [LUsing 2]"
    "(workers demo_entered)[0 := AtSelect] = [AtSelect, AtSelect]"
    "counter demo_entered = 0" "\<not> stopChan demo_entered"
    by code_simp+
  from C3_derivation_failure [OF h, of miss_env] v show ?thesis
    by simp
qed

text \<open>
  C4, as the code has it. Each time the reporter's timer case runs it logs the counter's
  value minus its last sample and keeps the value as its new sample; the deltas logged
  in a run add up to the last sample (as 64-bit values always; as numbers, with the last
  sample at most the counter, in every run shorter than \<open>2^64\<close> steps).
\<close>

theorem C4_deltas_sum_to_last_sample:
  "sum_list (deltas (logs (run L config evs (runWalletGenerator numCPU fs config))))
      = lastCount (run L config evs (runWalletGenerator numCPU fs config))
   \<and> (length evs < 2 ^ 64 \<longrightarrow>
        sum_list (map unat (deltas (logs (run L config evs (runWalletGenerator numCPU fs config)))))
          = unat (lastCount (run L config evs (runWalletGenerator numCPU fs config)))
        \<and> lastCount (run L config evs (runWalletGenerator numCPU fs config))
          \<le> counter (run L config evs (runWalletGenerator numCPU fs config)))
   \<and> (\<not> panicked s \<and> reporter s = RSelect \<longrightarrow>
        logs (step L config Tick s) = logs s @ [LProcessed (counter s - lastCount s)]
        \<and> lastCount (step L config Tick s) = counter s)"
proof -
  define sR where "sR = run L config evs (runWalletGenerator numCPU fs config)"
  have d: "delta_inv sR"
    unfolding sR_def by (rule run_invariant) (erule delta_inv_step, rule init_invs)
  have s: "sample_inv sR"
    unfolding sR_def by (rule run_invariant) (erule sample_inv_step, rule init_sample_inv)
  have "count_action Incremented sR \<le> length evs"
    unfolding sR_def
    using count_action_run [of Incremented "runWalletGenerator numCPU fs config" L config evs]
    by (simp add: count_action_def init_fields)
  with s have "length evs < 2 ^ 64 \<longrightarrow>
        sum_list (map unat (deltas (logs sR))) = unat (lastCount sR) \<and> lastCount sR \<le> counter sR"
    by (simp add: sample_inv_def)
  moreover have "\<not> panicked s \<and> reporter s = RSelect \<longrightarrow>
        logs (step L config Tick s) = logs s @ [LProcessed (counter s - lastCount s)]
        \<and> lastCount (step L config Tick s) = counter s"
    by (simp add: step_def reporter_tick_def Let_def)
  ultimately show ?thesis
    using d unfolding sR_def [symmetric] by (simp add: delta_inv_def)
qed

theorem C4_deltas_sum_to_last_sample_witness:
  "sum_list (map unat (deltas (logs (run demo_lib demo_config demo_ticks demo_start)))) = 3
   \<and> unat (lastCount (run demo_lib demo_config demo_ticks demo_start)) = 3
   \<and> unat (counter (run demo_lib demo_config demo_ticks demo_start)) = 4
   \<and> logs (step demo_lib demo_config Tick demo_start) = [LUsing 2, LProcessed 0]"
proof -
  have h: "length demo_ticks < 2 ^ 64"
    by (simp add: demo_ticks_def)
  have h': "\<not> panicked demo_start \<and> reporter demo_start = RSelect"
    by code_simp
  have v: "unat (lastCount (run demo_lib demo_config demo_ticks demo_start)) = 3"
    "unat (counter (run demo_lib demo_config demo_ticks demo_start)) = 4"
    "logs demo_start @ [LProcessed (counter demo_start - lastCount demo_start)]
       = [LUsing 2, LProcessed 0]"
    by code_simp+
  from C4_deltas_sum_to_last_sample [of demo_lib demo_config demo_ticks 8 Map.empty demo_start] h h' v
  show ?thesis by (simp add: demo_start_def)
qed

text \<open>
  C4 fails as stated: in a run that finds its match before the first second is over, all
  workers and the reporter have returned, no delta was logged, and the counter is 1.
\<close>

theorem C4_final_counter_counterexample:
  "finished (run demo_lib demo_config demo_quick demo_start)
   \<and> reporter (run demo_lib demo_config demo_quick demo_start) = RExited
   \<and> sum_list (deltas (logs (run demo_lib demo_config demo_quick demo_start)))
       \<noteq> counter (run demo_lib demo_config demo_quick demo_start)"
  by code_simp

text \<open>
  C5. A configured thread count of 0 resolves to the number of CPUs; on a machine with 8
  CPUs it resolves to 8 and 8 workers start. A negative count passes \<^verbatim>\<open>parseFlags\<close>, is kept by the resolution, and the
  loop \<^verbatim>\<open>for i := 0; i < config.Threads; i++\<close> starts no worker: with \<^verbatim>\<open>-threads=-1\<close>
  the resolved count is \<open>-1\<close>, below 1, and the run is over at once.
\<close>

theorem C5_negative_threads:
  "Threads (resolveThreads numCPU (config\<lparr>Threads := 0\<rparr>)) = numCPU
   \<and> Threads (resolveThreads 8 (config\<lparr>Threads := 0\<rparr>)) = 8
   \<and> length (workers (runWalletGenerator 8 fs (config\<lparr>Threads := 0\<rparr>))) = 8
   \<and> Threads (resolveThreads 8 (config\<lparr>Threads := - 1\<rparr>)) = - 1
   \<and> workers (runWalletGenerator 8 fs (config\<lparr>Threads := - 1\<rparr>)) = []
   \<and> finished (runWalletGenerator 8 fs (config\<lparr>Threads := - 1\<rparr>))
   \<and> main 8 fs (demo_flags\<lparr>flag_threads := - 1\<rparr>)
       = Inr (runWalletGenerator 8 fs (demo_config\<lparr>Threads := - 1\<rparr>))"
  by (simp add: resolveThreads_def runWalletGenerator_def finished_def main_def parseFlags_def
      demo_flags_def demo_config_def)

text \<open>
  C6. Along a run (shorter than \<open>2^64\<close> steps, so that the \<^verbatim>\<open>uint64\<close> cannot have
  wrapped around) the counter never decreases from an earlier point \<open>j\<close> to a later
  point \<open>k\<close>, the termination signal once raised stays raised and the channel has
  been closed once if it is raised and never otherwise, and the counter is the number of
  \<^verbatim>\<open>atomic.AddUint64\<close> calls made so far, none lost. A single step of any goroutine,
  from any state, leaves the counter alone or adds one to it.
\<close>

theorem C6_counter_and_signal:
  assumes "length evs < 2 ^ 64" and "j \<le> k" and "k \<le> length evs"
  shows "counter (run L config (take j evs) (runWalletGenerator numCPU fs config))
           \<le> counter (run L config (take k evs) (runWalletGenerator numCPU fs config))
    \<and> (stopChan (run L config (take j evs) (runWalletGenerator numCPU fs config))
          \<longrightarrow> stopChan (run L config (take k evs) (runWalletGenerator numCPU fs config)))
    \<and> unat (counter (run L config (take k evs) (runWalletGenerator numCPU fs config)))
         = count_action Incremented (run L config (take k evs) (runWalletGenerator numCPU fs config))
    \<and> count_action ClosedChan (run L config (take k evs) (runWalletGenerator numCPU fs config))
         = (if stopChan (run L config (take k evs) (runWalletGenerator numCPU fs config))
            then 1 else 0)
    \<and> (counter (step L config ev s) = counter s \<or> counter (step L config ev s) = counter s + 1)"
proof -
  define s0 where "s0 = runWalletGenerator numCPU fs config"
  define sj where "sj = run L config (take j evs) s0"
  define sk where "sk = run L config (take k evs) s0"
  have "take k evs = take j evs @ drop j (take k evs)"
    using assms(2) by (metis append_take_drop_id min.absorb_iff2 take_take min.commute)
  then have sk: "sk = run L config (drop j (take k evs)) sj"
    unfolding sk_def sj_def by (metis run_append)
  have aj: "add_inv sj"
    unfolding sj_def s0_def by (rule run_invariant) (erule add_inv_step, rule init_invs)
  have ak: "add_inv sk"
    unfolding sk_def s0_def by (rule run_invariant) (erule add_inv_step, rule init_invs)
  have "count_action Incremented sk \<le> length (take k evs)"
    unfolding sk_def s0_def
    using count_action_run [of Incremented "runWalletGenerator numCPU fs config" L config "take k evs"]
    by (simp add: count_action_def init_fields)
  with assms have bk: "count_action Incremented sk < 2 ^ 64" by simp
  have jk: "count_action Incremented sj \<le> count_action Incremented sk"
    unfolding sk using count_action_run [of Incremented sj L config "drop j (take k evs)"] by simp
  with bk have bj: "count_action Incremented sj < 2 ^ 64" by simp
  have uj: "unat (counter sj) = count_action Incremented sj"
    using aj bj by (rule add_inv_unat)
  have uk: "unat (counter sk) = count_action Incremented sk"
    using ak bk by (rule add_inv_unat)
  from uj uk jk have "counter sj \<le> counter sk"
    by (simp add: word_le_nat_alt)
  moreover have "stopChan sj \<longrightarrow> stopChan sk"
    unfolding sk by (simp add: stopChan_run)
  moreover have "once_inv sk"
    unfolding sk_def s0_def by (rule run_invariant) (erule once_inv_step, rule init_invs)
  then have "count_action ClosedChan sk = (if stopChan sk then 1 else 0)"
    by (simp add: once_inv_def)
  ultimately show ?thesis
    using uk counter_step [of L config ev s]
    unfolding sj_def sk_def s0_def by simp
qed

theorem C6_counter_and_signal_witness:
  "counter (run demo_lib demo_config (take 7 demo_quick) demo_start)
      \<le> counter (run demo_lib demo_config (take 9 demo_quick) demo_start)
   \<and> stopChan (run demo_lib demo_config (take 7 demo_quick) demo_start)
   \<and> stopChan (run demo_lib demo_config (take 9 demo_quick) demo_start)
   \<and> unat (counter (run demo_lib demo_config (take 9 demo_quick) demo_start)) = 1"
proof -
  have h: "length demo_quick < 2 ^ 64" "(7::nat) \<le> 9" "9 \<le> length demo_quick"
    by (simp_all add: demo_quick_def)
  have v: "stopChan (run demo_lib demo_config (take 7 demo_quick) demo_start)"
    "count_action Incremented (run demo_lib demo_config (take 9 demo_quick) demo_start) = 1"
    by code_simp+
  from C6_counter_and_signal [OF h, of demo_lib demo_config 8 Map.empty Tick demo_start] v
  show ?thesis
    by (simp add: demo_start_def)
qed

text \<open>
  C7. A worker that finds \<^verbatim>\<open>stopChan\<close> closed at its \<^verbatim>\<open>select\<close> returns in that step
  without touching the counter, and in any continuation of the run it stays returned and
  does nothing more: no derivation, no increment. The reporter that takes its
  \<^verbatim>\<open>stopChan\<close> case returns, and in any continuation it stays returned, samples no more
  and logs no more delta. No step of the reporter changes the counter or derives an
  address, before or after.
\<close>

theorem C7_no_work_after_stop:
  assumes "\<not> panicked s" and "stopChan s"
  shows "(i < length (workers s) \<and> workers s ! i = AtSelect \<longrightarrow>
            workers (step L config (Sched i e) s) ! i = Exited
          \<and> history (step L config (Sched i e) s) = history s @ [(i, ObservedStop)]
          \<and> counter (step L config (Sched i e) s) = counter s
          \<and> (\<forall>evs. workers (run L config evs (step L config (Sched i e) s)) ! i = Exited
                \<and> actions_of i (run L config evs (step L config (Sched i e) s))
                    = actions_of i s @ [ObservedStop]))
    \<and> (reporter s = RSelect \<longrightarrow>
            reporter (step L config ReporterStop s) = RExited
          \<and> counter (step L config ReporterStop s) = counter s
          \<and> history (step L config ReporterStop s) = history s
          \<and> (\<forall>evs. reporter (run L config evs (step L config ReporterStop s)) = RExited
                \<and> lastCount (run L config evs (step L config ReporterStop s)) = lastCount s
                \<and> deltas (logs (run L config evs (step L config ReporterStop s)))
                    = deltas (logs s)))
    \<and> counter (step L config Tick s') = counter s'
    \<and> history (step L config Tick s') = history s'
    \<and> counter (step L config ReporterStop s') = counter s'
    \<and> history (step L config ReporterStop s') = history s'"
proof -
  have w: "workers (step L config (Sched i e) s) ! i = Exited
          \<and> history (step L config (Sched i e) s) = history s @ [(i, ObservedStop)]
          \<and> counter (step L config (Sched i e) s) = counter s
          \<and> (\<forall>evs. workers (run L config evs (step L config (Sched i e) s)) ! i = Exited
                \<and> actions_of i (run L config evs (step L config (Sched i e) s))
                    = actions_of i s @ [ObservedStop])"
    if lt: "i < length (workers s)" and at: "workers s ! i = AtSelect"
  proof -
    define s1 where "s1 = step L config (Sched i e) s"
    have s1: "s1 = goto i Exited ObservedStop s"
      unfolding s1_def using assms lt at by (simp add: step_def worker_step_def)
    have 1: "workers s1 ! i = Exited" "i < length (workers s1)"
      "history s1 = history s @ [(i, ObservedStop)]" "counter s1 = counter s"
      using lt by (simp_all add: s1 goto_frame)
    from 1(3) have 2: "actions_of i s1 = actions_of i s @ [ObservedStop]"
      by (simp add: actions_of_snoc)
    from exited_run [OF 1(2) 1(1), of L config] 2
    have "\<forall>evs. workers (run L config evs s1) ! i = Exited
                \<and> actions_of i (run L config evs s1) = actions_of i s @ [ObservedStop]"
      by simp
    with 1 show ?thesis unfolding s1_def by simp
  qed
  have r: "reporter (step L config ReporterStop s) = RExited
          \<and> counter (step L config ReporterStop s) = counter s
          \<and> history (step L config ReporterStop s) = history s
          \<and> (\<forall>evs. reporter (run L config evs (step L config ReporterStop s)) = RExited
                \<and> lastCount (run L config evs (step L config ReporterStop s)) = lastCount s
                \<and> deltas (logs (run L config evs (step L config ReporterStop s)))
                    = deltas (logs s))"
    if rs: "reporter s = RSelect"
  proof -
    define s1 where "s1 = step L config ReporterStop s"
    have s1: "s1 = s\<lparr>reporter := RExited\<rparr>"
      unfolding s1_def using assms rs by (simp add: step_def reporter_stop_def)
    have 1: "reporter s1 = RExited" "counter s1 = counter s" "history s1 = history s"
      "lastCount s1 = lastCount s" "logs s1 = logs s"
      by (simp_all add: s1)
    from reporter_exited_run [OF 1(1), of L config] 1
    have "\<forall>evs. reporter (run L config evs s1) = RExited
                \<and> lastCount (run L config evs s1) = lastCount s
                \<and> deltas (logs (run L config evs s1)) = deltas (logs s)"
      by simp
    with 1 show ?thesis unfolding s1_def by simp
  qed
  have t: "counter (step L config Tick s') = counter s'
    \<and> history (step L config Tick s') = history s'
    \<and> counter (step L config ReporterStop s') = counter s'
    \<and> history (step L config ReporterStop s') = history s'"
    by (simp add: step_def reporter_tick_def reporter_stop_def Let_def split: rpc.splits)
  from w r t show ?thesis by blast
qed

theorem C7_no_work_after_stop_witness:
  "workers demo_stopped ! 1 = AtSelect
   \<and> workers (step demo_lib demo_config (Sched 1 miss_env) demo_stopped) ! 1 = Exited
   \<and> actions_of 1 (run demo_lib demo_config [Sched 1 miss_env, Sched 1 miss_env, Sched 1 miss_env, Tick]
        (step demo_lib demo_config (Sched 1 miss_env) demo_stopped)) = [ObservedStop]
   \<and> counter (step demo_lib demo_config (Sched 1 miss_env) demo_stopped) = 1
   \<and> reporter (run demo_lib demo_config [Tick, Sched 1 miss_env]
        (step demo_lib demo_config ReporterStop demo_stopped)) = RExited
   \<and> deltas (logs (run demo_lib demo_config [Tick, Sched 1 miss_env]
        (step demo_lib demo_config ReporterStop demo_stopped))) = []"
proof -
  have h: "\<not> panicked demo_stopped" "stopChan demo_stopped"
    by code_simp+
  have p: "1 < length (workers demo_stopped) \<and> workers demo_stopped ! 1 = AtSelect"
    "reporter demo_stopped = RSelect"
    by code_simp+
  have v: "actions_of 1 demo_stopped = []" "counter demo_stopped = 1"
    "deltas (logs demo_stopped) = []"
    by code_simp+
  note T = C7_no_work_after_stop [OF h, of 1 demo_lib demo_config miss_env]
  from T p have a: "workers (step demo_lib demo_config (Sched 1 miss_env) demo_stopped) ! 1 = Exited"
    "counter (step demo_lib demo_config (Sched 1 miss_env) demo_stopped) = counter demo_stopped"
    by blast+
  from T p have b: "actions_of 1 (run demo_lib demo_config
        [Sched 1 miss_env, Sched 1 miss_env, Sched 1 miss_env, Tick]
        (step demo_lib demo_config (Sched 1 miss_env) demo_stopped))
      = actions_of 1 demo_stopped @ [ObservedStop]"
    by blast
  from T p have c: "reporter (run demo_lib demo_config [Tick, Sched 1 miss_env]
        (step demo_lib demo_config ReporterStop demo_stopped)) = RExited"
    "deltas (logs (run demo_lib demo_config [Tick, Sched 1 miss_env]
        (step demo_lib demo_config ReporterStop demo_stopped))) = deltas (logs demo_stopped)"
    by blast+
  from a b c v p show ?thesis by (simp only: append_Nil simp_thms)
qed

text \<open>
  C8. When the suffix is empty or the wallet version is neither 4 nor 5, \<^verbatim>\<open>parseFlags\<close>
  prints the usage summary and exits with status 1, and \<^verbatim>\<open>main\<close> starts no search.
  Otherwise \<^verbatim>\<open>parseFlags\<close> returns the configuration made of the flag values and
  \<^verbatim>\<open>main\<close> reaches the state in which the reporter and the workers have been started,
  the channel open and the counter 0; when the resolved thread count is positive there
  is at least one worker, the run is not over, and every worker enters its first
  iteration at its first step. With valid flags and \<^verbatim>\<open>-threads=-1\<close> no worker is
  started, and in no continuation of that state is anything derived, printed or counted:
  there the search does not start.
\<close>

theorem C8_flags_then_search:
  "(flag_suffix f = [] \<or> (flag_version f \<noteq> 4 \<and> flag_version f \<noteq> 5) \<longrightarrow>
      parseFlags f = Inl (UsageAndExit 1) \<and> main numCPU fs f = Inl (UsageAndExit 1))
   \<and> (\<not> (flag_suffix f = [] \<or> (flag_version f \<noteq> 4 \<and> flag_version f \<noteq> 5)) \<longrightarrow>
      parseFlags f =
        Inr \<lparr>Version = flag_version f, Suffix = flag_suffix f,
             CaseSensitive = flag_caseSensitive f, Bounce = flag_bounce f,
             Threads = flag_threads f, Testnet = flag_testnet f,
             Output = flag_output f, Daemon = False\<rparr>
      \<and> (\<exists>s. main numCPU fs f = Inr s
            \<and> \<not> stopChan s \<and> \<not> panicked s \<and> counter s = 0 \<and> reporter s = RSelect
            \<and> workers s
                = replicate (nat (if flag_threads f = 0 then numCPU else flag_threads f)) AtSelect
            \<and> (0 < (if flag_threads f = 0 then numCPU else flag_threads f) \<longrightarrow>
                  workers s \<noteq> [] \<and> \<not> finished s
                  \<and> (\<forall>i e. i < length (workers s) \<longrightarrow>
                        workers (step L config (Sched i e) s) ! i = AtDerive))))
   \<and> main 8 fs (demo_flags\<lparr>flag_threads := - 1\<rparr>)
       = Inr (runWalletGenerator 8 fs (demo_config\<lparr>Threads := - 1\<rparr>))
   \<and> workers (runWalletGenerator 8 fs (demo_config\<lparr>Threads := - 1\<rparr>)) = []
   \<and> (\<forall>evs. history (run L config evs (runWalletGenerator 8 fs (demo_config\<lparr>Threads := - 1\<rparr>))) = []
         \<and> stdout (run L config evs (runWalletGenerator 8 fs (demo_config\<lparr>Threads := - 1\<rparr>))) = []
         \<and> counter (run L config evs (runWalletGenerator 8 fs (demo_config\<lparr>Threads := - 1\<rparr>))) = 0)"
proof -
  have bad: "flag_suffix f = [] \<or> (flag_version f \<noteq> 4 \<and> flag_version f \<noteq> 5) \<longrightarrow>
      parseFlags f = Inl (UsageAndExit 1) \<and> main numCPU fs f = Inl (UsageAndExit 1)"
    by (simp add: parseFlags_def main_def)
  define c where "c = \<lparr>Version = flag_version f, Suffix = flag_suffix f,
             CaseSensitive = flag_caseSensitive f, Bounce = flag_bounce f,
             Threads = flag_threads f, Testnet = flag_testnet f,
             Output = flag_output f, Daemon = False\<rparr>"
  define n where "n = (if flag_threads f = 0 then numCPU else flag_threads f)"
  define s0 where "s0 = runWalletGenerator numCPU fs c"
  have n: "Threads (resolveThreads numCPU c) = n"
    by (simp add: resolveThreads_def c_def n_def)
  have f0: "\<not> stopChan s0" "\<not> panicked s0" "counter s0 = 0" "reporter s0 = RSelect"
    "workers s0 = replicate (nat n) AtSelect"
    unfolding s0_def by (simp_all add: init_fields n)
  have start: "workers s0 \<noteq> [] \<and> \<not> finished s0
      \<and> (\<forall>i e. i < length (workers s0) \<longrightarrow> workers (step L config (Sched i e) s0) ! i = AtDerive)"
    if pos: "0 < n"
  proof -
    from pos f0(5) have ne: "workers s0 \<noteq> []" by simp
    from pos f0(5) have nf: "\<not> finished s0" by (auto simp add: finished_def list_all_iff)
    have "workers (step L config (Sched i e) s0) ! i = AtDerive" if "i < length (workers s0)" for i e
    proof -
      from that f0(5) have "workers s0 ! i = AtSelect" by simp
      with f0(1,2) that show ?thesis by (simp add: enter_step)
    qed
    with ne nf show ?thesis by simp
  qed
  have good: "\<not> (flag_suffix f = [] \<or> (flag_version f \<noteq> 4 \<and> flag_version f \<noteq> 5)) \<longrightarrow>
      parseFlags f = Inr c
      \<and> (\<exists>s. main numCPU fs f = Inr s
            \<and> \<not> stopChan s \<and> \<not> panicked s \<and> counter s = 0 \<and> reporter s = RSelect
            \<and> workers s = replicate (nat n) AtSelect
            \<and> (0 < n \<longrightarrow>
                  workers s \<noteq> [] \<and> \<not> finished s
                  \<and> (\<forall>i e. i < length (workers s) \<longrightarrow>
                        workers (step L config (Sched i e) s) ! i = AtDerive)))"
  proof
    assume v: "\<not> (flag_suffix f = [] \<or> (flag_version f \<noteq> 4 \<and> flag_version f \<noteq> 5))"
    then have p: "parseFlags f = Inr c" by (simp add: parseFlags_def c_def)
    then have m: "main numCPU fs f = Inr s0" by (simp add: main_def s0_def)
    from m f0 start have "\<exists>s. main numCPU fs f = Inr s
            \<and> \<not> stopChan s \<and> \<not> panicked s \<and> counter s = 0 \<and> reporter s = RSelect
            \<and> workers s = replicate (nat n) AtSelect
            \<and> (0 < n \<longrightarrow>
                  workers s \<noteq> [] \<and> \<not> finished s
                  \<and> (\<forall>i e. i < length (workers s) \<longrightarrow>
                        workers (step L config (Sched i e) s) ! i = AtDerive))"
      by blast
    with p show "parseFlags f = Inr c \<and> (\<exists>s. main numCPU fs f = Inr s
            \<and> \<not> stopChan s \<and> \<not> panicked s \<and> counter s = 0 \<and> reporter s = RSelect
            \<and> workers s = replicate (nat n) AtSelect
            \<and> (0 < n \<longrightarrow>
                  workers s \<noteq> [] \<and> \<not> finished s
                  \<and> (\<forall>i e. i < length (workers s) \<longrightarrow>
                        workers (step L config (Sched i e) s) ! i = AtDerive)))"
      by simp
  qed
  define sn where "sn = runWalletGenerator 8 fs (demo_config\<lparr>Threads := - 1\<rparr>)"
  have mn: "main 8 fs (demo_flags\<lparr>flag_threads := - 1\<rparr>) = Inr sn"
    by (simp add: main_def parseFlags_def demo_flags_def demo_config_def sn_def)
  have wn: "workers sn = []" "history sn = []" "stdout sn = []" "counter sn = 0"
    unfolding sn_def by (simp_all add: init_fields resolveThreads_def)
  from no_workers_run [OF wn(1), of L config] wn
  have rn: "\<forall>evs. history (run L config evs sn) = [] \<and> stdout (run L config evs sn) = []
      \<and> counter (run L config evs sn) = 0"
    by simp
  from bad good mn wn(1) rn show ?thesis
    unfolding c_def n_def sn_def by blast
qed

theorem C8_flags_then_search_witness:
  "parseFlags (demo_flags\<lparr>flag_suffix := []\<rparr>) = Inl (UsageAndExit 1)
   \<and> main 8 Map.empty (demo_flags\<lparr>flag_version := 3\<rparr>) = Inl (UsageAndExit 1)
   \<and> parseFlags demo_flags = Inr demo_config
   \<and> (\<exists>s. main 8 Map.empty demo_flags = Inr s
         \<and> workers s = [AtSelect, AtSelect] \<and> \<not> finished s
         \<and> workers (step demo_lib demo_config (Sched 1 miss_env) s) ! 1 = AtDerive)"
proof -
  note T = C8_flags_then_search [of _ 8 Map.empty demo_lib demo_config]
  have a: "flag_suffix (demo_flags\<lparr>flag_suffix := []\<rparr>) = []
           \<or> (flag_version (demo_flags\<lparr>flag_suffix := []\<rparr>) \<noteq> 4
              \<and> flag_version (demo_flags\<lparr>flag_suffix := []\<rparr>) \<noteq> 5)"
    by simp
  have b: "flag_suffix (demo_flags\<lparr>flag_version := 3\<rparr>) = []
           \<or> (flag_version (demo_flags\<lparr>flag_version := 3\<rparr>) \<noteq> 4
              \<and> flag_version (demo_flags\<lparr>flag_version := 3\<rparr>) \<noteq> 5)"
    by simp
  have c: "\<not> (flag_suffix demo_flags = []
           \<or> (flag_version demo_flags \<noteq> 4 \<and> flag_version demo_flags \<noteq> 5))"
    by (simp add: demo_flags_def)
  have d: "(0::int) < (if flag_threads demo_flags = 0 then 8 else flag_threads demo_flags)"
    "nat (if flag_threads demo_flags = 0 then 8 else flag_threads demo_flags) = 2"
    by (simp_all add: demo_flags_def)
  from a T [of "demo_flags\<lparr>flag_suffix := []\<rparr>"]
  have 1: "parseFlags (demo_flags\<lparr>flag_suffix := []\<rparr>) = Inl (UsageAndExit 1)" by blast
  from b T [of "demo_flags\<lparr>flag_version := 3\<rparr>"]
  have 2: "main 8 Map.empty (demo_flags\<lparr>flag_version := 3\<rparr>) = Inl (UsageAndExit 1)" by blast
  from c T [of demo_flags]
  have 3: "parseFlags demo_flags =
        Inr \<lparr>Version = flag_version demo_flags, Suffix = flag_suffix demo_flags,
             CaseSensitive = flag_caseSensitive demo_flags, Bounce = flag_bounce demo_flags,
             Threads = flag_threads demo_flags, Testnet = flag_testnet demo_flags,
             Output = flag_output demo_flags, Daemon = False\<rparr>"
    by blast
  then have p3: "parseFlags demo_flags = Inr demo_config"
    by (simp add: demo_flags_def demo_config_def)
  from c d(1) T [of demo_flags]
  obtain s where s: "main 8 Map.empty demo_flags = Inr s"
    "workers s = replicate (nat (if flag_threads demo_flags = 0 then 8 else flag_threads demo_flags)) AtSelect"
    "\<not> finished s"
    "\<forall>i e. i < length (workers s) \<longrightarrow> workers (step demo_lib demo_config (Sched i e) s) ! i = AtDerive"
    by blast
  from s(2) d(2) have w: "workers s = [AtSelect, AtSelect]"
    by (simp add: numeral_2_eq_2)
  with s(4) have "workers (step demo_lib demo_config (Sched 1 miss_env) s) ! 1 = AtDerive"
    by simp
  with 1 2 p3 s(1,3) w show ?thesis by blast
qed

text \<open>
  C9. With an output file configured, the step of a worker that reports its match prints
  the found-report and goes on to \<^verbatim>\<open>once.Do\<close> whatever the file system answers. When
  the write succeeds the file holds its former contents (none when it did not exist)
  followed by the record \<^verbatim>\<open>"=== FOUND <timestamp> ===\nSeed: <phrase>\nAddress: <address>\n\n"\<close>,
  and nothing is logged; when opening or writing fails, the failure is logged and the
  found-report on standard output stands as it is.
\<close>

theorem C9_persistence:
  assumes "\<not> panicked s" and "i < length (workers s)" and "workers s ! i = AtPrint seed address"
    and "Output config \<noteq> []"
  shows "take (length (stdout s) + 3) (stdout (step L config (Sched i e) s))
           = stdout s @ [''=== FOUND ==='', ''Seed phrase: '' @ Join seed,
                         ''Wallet address: '' @ address]
    \<and> workers (step L config (Sched i e) s) = (workers s)[i := AtOnce]
    \<and> \<not> panicked (step L config (Sched i e) s)
    \<and> (fileIO e = IO_ok \<longrightarrow>
          files (step L config (Sched i e) s) (Output config)
            = Some (contents (files s) (Output config)
                    @ ''=== FOUND '' @ timeNow e @ '' ==='' @ [CHR 0x0A]
                    @ ''Seed: '' @ Join seed @ [CHR 0x0A]
                    @ ''Address: '' @ address @ [CHR 0x0A, CHR 0x0A])
          \<and> logs (step L config (Sched i e) s) = logs s)
    \<and> (\<forall>err. fileIO e = Open_fails err \<longrightarrow>
          files (step L config (Sched i e) s) = files s
          \<and> logs (step L config (Sched i e) s) = logs s @ [LWriteFailed err])
    \<and> (\<forall>n err. fileIO e = Write_fails n err \<longrightarrow>
          logs (step L config (Sched i e) s) = logs s @ [LWriteFailed err])"
proof -
  have st: "step L config (Sched i e) s
      = goto i AtOnce Reported (printFoundWallet e seed address (Output config) s)"
    using assms(1-3) by (simp add: step_def worker_step_def)
  show ?thesis
  proof (cases "fileIO e")
    case IO_ok
    with assms(1,4) show ?thesis
      unfolding st
      by (simp add: goto_def printFoundWallet_def Let_def writeToFile_def found_record_def)
  next
    case (Open_fails err)
    with assms(1,4) show ?thesis
      unfolding st
      by (simp add: goto_def printFoundWallet_def Let_def writeToFile_def)
  next
    case (Write_fails n err)
    with assms(1,4) show ?thesis
      unfolding st
      by (simp add: goto_def printFoundWallet_def Let_def writeToFile_def)
  qed
qed

theorem C9_persistence_witness:
  "files (step demo_lib demo_out_config (Sched 0 (demo_env [])) demo_found) ''found.txt''
     = Some (''old=== FOUND 2024-01-01 00:00:00 ==='' @ [CHR 0x0A] @ ''Seed: UQx AB'' @ [CHR 0x0A]
             @ ''Address: UQx AB'' @ [CHR 0x0A, CHR 0x0A])
   \<and> logs (step demo_lib demo_out_config (Sched 0 denied_env) demo_found)
     = [LUsing 2, LWriteFailed ''denied'']
   \<and> logs (step demo_lib demo_out_config (Sched 0 full_env) demo_found)
     = [LUsing 2, LWriteFailed ''disk full'']
   \<and> take 3 (stdout (step demo_lib demo_out_config (Sched 0 denied_env) demo_found))
     = [''=== FOUND ==='', ''Seed phrase: UQx AB'', ''Wallet address: UQx AB'']
   \<and> workers (step demo_lib demo_out_config (Sched 0 denied_env) demo_found)
     = [AtOnce, AtSelect]"
proof -
  have h: "\<not> panicked demo_found" "0 < length (workers demo_found)"
    "workers demo_found ! 0 = AtPrint [''UQx'', ''AB''] ''UQx AB''"
    "Output demo_out_config \<noteq> []"
    by code_simp+
  have v: "contents (files demo_found) (Output demo_out_config) = ''old''"
    "Output demo_out_config = ''found.txt''" "logs demo_found = [LUsing 2]"
    "stdout demo_found = []" "(workers demo_found)[0 := AtOnce] = [AtOnce, AtSelect]"
    "Join [''UQx'', ''AB''] = ''UQx AB''"
    by code_simp+
  have e: "fileIO (demo_env []) = IO_ok" "timeNow (demo_env []) = ''2024-01-01 00:00:00''"
    "fileIO denied_env = Open_fails ''denied''"
    "fileIO full_env = Write_fails 4 ''disk full''"
    by (simp_all add: demo_env_def denied_env_def full_env_def)
  from C9_persistence [OF h, of demo_lib "demo_env []"] e(1,2) v
  have 1: "files (step demo_lib demo_out_config (Sched 0 (demo_env [])) demo_found) ''found.txt''
     = Some (''old=== FOUND 2024-01-01 00:00:00 ==='' @ [CHR 0x0A] @ ''Seed: UQx AB'' @ [CHR 0x0A]
             @ ''Address: UQx AB'' @ [CHR 0x0A, CHR 0x0A])"
    by simp
  from C9_persistence [OF h, of demo_lib denied_env] e(3) v
  have 2: "logs (step demo_lib demo_out_config (Sched 0 denied_env) demo_found)
     = [LUsing 2, LWriteFailed ''denied'']"
    and 4: "take 3 (stdout (step demo_lib demo_out_config (Sched 0 denied_env) demo_found))
     = [''=== FOUND ==='', ''Seed phrase: UQx AB'', ''Wallet address: UQx AB'']"
    and 5: "workers (step demo_lib demo_out_config (Sched 0 denied_env) demo_found)
     = [AtOnce, AtSelect]"
    by simp_all
  from C9_persistence [OF h, of demo_lib full_env] e(4) v
  have 3: "logs (step demo_lib demo_out_config (Sched 0 full_env) demo_found)
     = [LUsing 2, LWriteFailed ''disk full'']"
    by simp
  from 1 2 3 4 5 show ?thesis by simp
qed

text \<open>
  C10. When every worker has returned, the counter is the number of iterations whose
  derivation succeeded and whose address missed the suffix (modulo \<open>2^64\<close>, the width
  of the counter; exactly that number in every run shorter than \<open>2^64\<close> steps), and
  every increment belongs to such an iteration: matching and failed iterations are not
  counted.
\<close>

theorem C10_counter_counts_misses:
  assumes "finished (run L config evs (runWalletGenerator numCPU fs config))"
  shows "unat (counter (run L config evs (runWalletGenerator numCPU fs config)))
           = count_action DeriveMissed (run L config evs (runWalletGenerator numCPU fs config))
               mod 2 ^ 64
    \<and> (length evs < 2 ^ 64 \<longrightarrow>
          unat (counter (run L config evs (runWalletGenerator numCPU fs config)))
            = count_action DeriveMissed (run L config evs (runWalletGenerator numCPU fs config)))
    \<and> count_action Incremented (run L config evs (runWalletGenerator numCPU fs config))
         = count_action DeriveMissed (run L config evs (runWalletGenerator numCPU fs config))"
proof -
  define sR where "sR = run L config evs (runWalletGenerator numCPU fs config)"
  have a: "add_inv sR"
    unfolding sR_def by (rule run_invariant) (erule add_inv_step, rule init_invs)
  from assms have "filter is_add (workers sR) = []"
    unfolding sR_def by (rule finished_no_add)
  with a have eq: "count_action Incremented sR = count_action DeriveMissed sR"
    and c: "counter sR = of_nat (count_action DeriveMissed sR)"
    by (simp_all add: add_inv_def)
  from c have u: "unat (counter sR) = count_action DeriveMissed sR mod 2 ^ 64"
    by (simp add: unat_of_nat)
  have "count_action DeriveMissed sR \<le> length evs"
    unfolding sR_def
    using count_action_run [of DeriveMissed "runWalletGenerator numCPU fs config" L config evs]
    by (simp add: count_action_def init_fields)
  with u have "length evs < 2 ^ 64 \<longrightarrow> unat (counter sR) = count_action DeriveMissed sR"
    by simp
  with u eq show ?thesis
    unfolding sR_def [symmetric] by simp
qed

theorem C10_counter_counts_misses_witness:
  "unat (counter (run demo_lib demo_config demo_quick demo_start)) = 1
   \<and> count_action DeriveMissed (run demo_lib demo_config demo_quick demo_start) = 1
   \<and> count_action DeriveMatched (run demo_lib demo_config demo_quick demo_start) = 1
   \<and> count_action Incremented (run demo_lib demo_config demo_quick demo_start) = 1"
proof -
  have h: "finished (run demo_lib demo_config demo_quick (runWalletGenerator 8 Map.empty demo_config))"
    by code_simp
  have l: "length demo_quick < 2 ^ 64"
    by (simp add: demo_quick_def)
  have v: "count_action DeriveMissed (run demo_lib demo_config demo_quick demo_start) = 1"
    "count_action DeriveMatched (run demo_lib demo_config demo_quick demo_start) = 1"
    by code_simp+
  from C10_counter_counts_misses [OF h] l v show ?thesis
    by (simp add: demo_start_def)
qed

end
